theory Spec2Isabelle
  imports Main "HOL-Library.Word"
begin

unbundle bit_operations_syntax

section \<open>EasyFlash STM32F10x flash port (flash\_port.c)\<close>

text \<open>
  The port file drives the on-chip flash of an STM32F10x through the vendor's peripheral
  library. The library and the chip are not part of the repository, so the embedding takes
  them as a parameter: a record of the six hardware accesses the file performs, over an
  arbitrary hardware state \<open>'h\<close>. Every C function of the file becomes a HOL function that
  threads the hardware state through these accesses in the order the C code makes them.

  \<^item> \<open>uint32_t\<close> and \<open>size_t\<close> (32 bits on this target) are \<open>32 word\<close>; arithmetic wraps.
  \<^item> A \<open>uint32_t *\<close> buffer in RAM is a list of words. Dereferencing past its end is
    undefined behaviour in C; the model returns \<open>None\<close> there.
  \<^item> \<open>*(uint32_t *) addr\<close> on the memory-mapped flash is the access \<open>load_word\<close>.
\<close>

type_synonym u8 = "8 word"
type_synonym u32 = "32 word"

subsection \<open>Types of flash.h and of the peripheral library\<close>

text \<open>The result codes of flash.h that this file returns.\<close>

datatype FlashErrCode = FLASH_NO_ERR | FLASH_ERASE_ERR | FLASH_WRITE_ERR

text \<open>The status a peripheral-library flash operation reports.\<close>

datatype FLASH_Status =
  FLASH_BUSY | FLASH_ERROR_PG | FLASH_ERROR_WRP | FLASH_COMPLETE | FLASH_TIMEOUT

datatype FLASH_FLAG = FLASH_FLAG_BSY | FLASH_FLAG_EOP | FLASH_FLAG_PGERR | FLASH_FLAG_WRPRTERR

text \<open>The device-density macro selected at build time; it decides \<open>PAGE_SIZE\<close>.\<close>

datatype stm32_density =
  STM32F10X_LD | STM32F10X_LD_VL | STM32F10X_MD | STM32F10X_MD_VL
  | STM32F10X_HD | STM32F10X_HD_VL | STM32F10X_XL | STM32F10X_CL

record 'h flash_hal =
  FLASH_Unlock :: "'h \<Rightarrow> 'h"
  FLASH_Lock :: "'h \<Rightarrow> 'h"
  FLASH_ClearFlag :: "FLASH_FLAG list \<Rightarrow> 'h \<Rightarrow> 'h"
  FLASH_ErasePage :: "u32 \<Rightarrow> 'h \<Rightarrow> FLASH_Status \<times> 'h"
  FLASH_ProgramWord :: "u32 \<Rightarrow> u32 \<Rightarrow> 'h \<Rightarrow> FLASH_Status \<times> 'h"
  load_word :: "u32 \<Rightarrow> 'h \<Rightarrow> u32 \<times> 'h"

subsection \<open>Configuration macros\<close>

definition PAGE_SIZE :: "stm32_density \<Rightarrow> u32" where
  "PAGE_SIZE dev =
     (if dev = STM32F10X_LD \<or> dev = STM32F10X_LD_VL \<or> dev = STM32F10X_MD \<or> dev = STM32F10X_MD_VL
      then 1024 else 2048)"

text \<open>\<open>FLASH_BASE\<close> comes from the chip header and is a parameter here.\<close>

definition FLASH_ENV_START_ADDR :: "u32 \<Rightarrow> u32" where
  "FLASH_ENV_START_ADDR flash_base = flash_base + 100 * 1024"

definition FLASH_ENV_SECTION_SIZE :: "stm32_density \<Rightarrow> u32" where
  "FLASH_ENV_SECTION_SIZE dev = 1 * PAGE_SIZE dev"

type_synonym flash_env = "string \<times> string"

definition default_env_set :: "flash_env list" where
  "default_env_set =
     [(''iap_need_copy_app'', ''0''),
      (''iap_copy_app_size'', ''0''),
      (''stop_in_bootloader'', ''0''),
      (''device_id'', ''1''),
      (''boot_times'', ''0'')]"

subsection \<open>flash\_port\_init\<close>

text \<open>The four objects the caller passes by pointer.\<close>

record port_args =
  env_addr :: u32
  env_size :: u32
  default_env :: "flash_env list"
  default_env_size :: u32

datatype fault = ConfigurationFault

text \<open>
  Modelled from the spec: the macro \<open>FLASH_ASSERT\<close> of flash.h is not among the sources.
  The spec makes a violated assertion a fatal configuration fault that is not a result
  code; the model stops with \<open>Inl ConfigurationFault\<close> and runs the rest of the function
  only when the condition holds.
\<close>

definition FLASH_ASSERT :: "bool \<Rightarrow> (fault + 'a) \<Rightarrow> fault + 'a" where
  "FLASH_ASSERT expr rest = (if \<not> expr then Inl ConfigurationFault else rest)"

definition flash_port_init ::
  "stm32_density \<Rightarrow> u32 \<Rightarrow> port_args \<Rightarrow> fault + (FlashErrCode \<times> port_args)" where
  "flash_port_init dev flash_base args =
     (let result = FLASH_NO_ERR in
      FLASH_ASSERT (env_size args mod 4 = 0)
        (Inr (result,
           args\<lparr>env_addr := FLASH_ENV_START_ADDR flash_base,
                env_size := FLASH_ENV_SECTION_SIZE dev,
                default_env := default_env_set,
                default_env_size := of_nat (length default_env_set)\<rparr>)))"

subsection \<open>flash\_read\<close>

text \<open>
  The loop \<open>for (; size > 0; size--, addr += 4, buf++) *buf = *(uint32_t *) addr\<close>. The
  parameter \<open>size\<close> is decremented once per word: it counts words, although the comment
  in the source calls it a size in bytes. The result is the caller's buffer after the call:
  its first \<open>size\<close> words overwritten.
\<close>

fun read_loop :: "'h flash_hal \<Rightarrow> u32 \<Rightarrow> u32 list \<Rightarrow> u32 \<Rightarrow> 'h \<Rightarrow> (u32 list \<times> 'h) option" where
  "read_loop hw addr [] sz h = (if sz > 0 then None else Some ([], h))"
| "read_loop hw addr (b # bs) sz h =
     (if sz > 0 then
        (case load_word hw addr h of (v, h1) \<Rightarrow>
           (case read_loop hw (addr + 4) bs (sz - 1) h1 of
              None \<Rightarrow> None
            | Some (bs', h') \<Rightarrow> Some (v # bs', h')))
      else Some (b # bs, h))"

definition flash_read ::
  "'h flash_hal \<Rightarrow> u32 \<Rightarrow> u32 list \<Rightarrow> u32 \<Rightarrow> 'h \<Rightarrow> (FlashErrCode \<times> u32 list \<times> 'h) option" where
  "flash_read hw addr buf sz h =
     (let result = FLASH_NO_ERR in
      case read_loop hw addr buf sz h of
        None \<Rightarrow> None
      | Some (buf', h') \<Rightarrow> Some (result, buf', h'))"

subsection \<open>flash\_erase\<close>

definition status_flags :: "FLASH_FLAG list" where
  "status_flags = [FLASH_FLAG_BSY, FLASH_FLAG_EOP, FLASH_FLAG_PGERR, FLASH_FLAG_WRPRTERR]"

text \<open>The loop \<open>for (i = 0; i < erase_pages; i++)\<close> with its \<open>break\<close>.\<close>

function erase_loop ::
  "'h flash_hal \<Rightarrow> u32 \<Rightarrow> u32 \<Rightarrow> u32 \<Rightarrow> u32 \<Rightarrow> 'h \<Rightarrow> FlashErrCode \<times> 'h" where
  "erase_loop hw page_size addr erase_pages i h =
     (if i < erase_pages then
        (case FLASH_ErasePage hw (addr + page_size * i) h of (flash_status, h1) \<Rightarrow>
           if flash_status \<noteq> FLASH_COMPLETE then (FLASH_ERASE_ERR, h1)
           else erase_loop hw page_size addr erase_pages (i + 1) h1)
      else (FLASH_NO_ERR, h))"
  by pat_completeness auto

lemma word_loop_measure:
  fixes i n :: u32
  assumes "i < n"
  shows "unat (n - (i + 1)) < unat (n - i)"
proof -
  from assms have le: "unat i < unat n" by (simp add: word_less_nat_alt)
  have "unat n < 2 ^ 32" using unsigned_less [of n] by simp
  with le have s: "unat (i + 1) = unat i + 1" by (simp add: unat_word_ariths)
  have "i + 1 \<le> n" using le s by (simp add: word_le_nat_alt)
  then have "unat (n - (i + 1)) = unat n - unat (i + 1)" by (rule unat_sub)
  moreover have "unat (n - i) = unat n - unat i"
    using assms by (simp add: unat_sub less_imp_le)
  ultimately show ?thesis using le s by simp
qed

termination erase_loop
  by (relation "measure (\<lambda>(hw, page_size, addr, erase_pages, i, h). unat (erase_pages - i))")
     (simp_all add: word_loop_measure)

definition flash_erase ::
  "'h flash_hal \<Rightarrow> stm32_density \<Rightarrow> u32 \<Rightarrow> u32 \<Rightarrow> 'h \<Rightarrow> FlashErrCode \<times> 'h" where
  "flash_erase hw dev addr sz h =
     (let erase_pages = sz div PAGE_SIZE dev;
          erase_pages = (if sz mod PAGE_SIZE dev \<noteq> 0 then erase_pages + 1 else erase_pages);
          h1 = FLASH_Unlock hw h;
          h2 = FLASH_ClearFlag hw status_flags h1
      in case erase_loop hw (PAGE_SIZE dev) addr erase_pages 0 h2 of
           (result, h3) \<Rightarrow> (result, FLASH_Lock hw h3))"

subsection \<open>flash\_write\<close>

text \<open>
  The loop \<open>for (i = 0; i < size; i += 4, buf++, addr += 4)\<close>: program the word, load the
  same address back, compare, \<open>break\<close> on a difference. The status that
  \<open>FLASH_ProgramWord\<close> returns is dropped, as in the C code.
\<close>

fun write_loop ::
  "'h flash_hal \<Rightarrow> u32 \<Rightarrow> u32 list \<Rightarrow> u32 \<Rightarrow> u32 \<Rightarrow> 'h \<Rightarrow> (FlashErrCode \<times> 'h) option" where
  "write_loop hw addr [] sz i h = (if i < sz then None else Some (FLASH_NO_ERR, h))"
| "write_loop hw addr (w # ws) sz i h =
     (if i < sz then
        (case FLASH_ProgramWord hw addr w h of (st, h1) \<Rightarrow>
           (case load_word hw addr h1 of (read_data, h2) \<Rightarrow>
              if read_data \<noteq> w then Some (FLASH_WRITE_ERR, h2)
              else write_loop hw (addr + 4) ws sz (i + 4) h2))
      else Some (FLASH_NO_ERR, h))"

definition flash_write ::
  "'h flash_hal \<Rightarrow> u32 \<Rightarrow> u32 list \<Rightarrow> u32 \<Rightarrow> 'h \<Rightarrow> (FlashErrCode \<times> 'h) option" where
  "flash_write hw addr buf sz h =
     (let h1 = FLASH_Unlock hw h;
          h2 = FLASH_ClearFlag hw status_flags h1
      in case write_loop hw addr buf sz 0 h2 of
           None \<Rightarrow> None
         | Some (result, h3) \<Rightarrow> Some (result, FLASH_Lock hw h3))"

section \<open>Observing the hardware\<close>

subsection \<open>The sequence of hardware accesses\<close>

text \<open>
  To speak about which accesses a call makes, and in which order, any hardware is wrapped
  so that it also records each access: the call, its arguments, and for a page erase and
  a load what the hardware answered. The functions of the port run unchanged on the
  wrapped hardware.
\<close>

datatype hw_call =
  Unlock
  | Lock
  | ClearFlag "FLASH_FLAG list"
  | ErasePage u32 FLASH_Status
  | ProgramWord u32 u32
  | Load u32 u32

definition traced :: "'h flash_hal \<Rightarrow> ('h \<times> hw_call list) flash_hal" where
  "traced hw =
     \<lparr>FLASH_Unlock = (\<lambda>(h, l). (FLASH_Unlock hw h, l @ [Unlock])),
      FLASH_Lock = (\<lambda>(h, l). (FLASH_Lock hw h, l @ [Lock])),
      FLASH_ClearFlag = (\<lambda>fl (h, l). (FLASH_ClearFlag hw fl h, l @ [ClearFlag fl])),
      FLASH_ErasePage = (\<lambda>a (h, l).
         case FLASH_ErasePage hw a h of (st, h') \<Rightarrow> (st, (h', l @ [ErasePage a st]))),
      FLASH_ProgramWord = (\<lambda>a w (h, l).
         case FLASH_ProgramWord hw a w h of (st, h') \<Rightarrow> (st, (h', l @ [ProgramWord a w]))),
      load_word = (\<lambda>a (h, l).
         case load_word hw a h of (v, h') \<Rightarrow> (v, (h', l @ [Load a v])))\<rparr>"

subsection \<open>The content of the medium\<close>

text \<open>
  The content of the medium is observed through a view of the hardware state: the byte
  at each address of the memory map. A 32-bit load assembles four consecutive bytes, the
  lowest address in the low byte (the Cortex-M3 is little-endian).
\<close>

definition le32 :: "(u32 \<Rightarrow> u8) \<Rightarrow> u32 \<Rightarrow> u32" where
  "le32 m a =
     ucast (m a) OR push_bit 8 (ucast (m (a + 1))) OR push_bit 16 (ucast (m (a + 2)))
       OR push_bit 24 (ucast (m (a + 3)))"

definition byte_of :: "u32 \<Rightarrow> nat \<Rightarrow> u8" where
  "byte_of w k = ucast (drop_bit (8 * k) w)"

definition same_page :: "u32 \<Rightarrow> u32 \<Rightarrow> u32 \<Rightarrow> bool" where
  "same_page page_size a b \<longleftrightarrow> a div page_size = b div page_size"

text \<open>
  What the theorems about content assume of the hardware, for pages of \<open>page_size\<close> bytes
  and a view \<open>view\<close>:
  \<^item> unlocking, locking, clearing flags and loading leave the content as it is, and a load
    returns the four bytes at its address;
  \<^item> a page erase that reports \<open>FLASH_COMPLETE\<close> leaves every byte of the page that
    contains its address erased (\<open>0xFF\<close>); a page erase, whatever it reports, changes no
    byte outside that page and no byte that is already erased;
  \<^item> programming a word changes no byte but the four at its address.
\<close>

definition nor_medium :: "u32 \<Rightarrow> 'h flash_hal \<Rightarrow> ('h \<Rightarrow> u32 \<Rightarrow> u8) \<Rightarrow> bool" where
  "nor_medium page_size hw view \<longleftrightarrow>
     (\<forall>h. view (FLASH_Unlock hw h) = view h) \<and>
     (\<forall>h. view (FLASH_Lock hw h) = view h) \<and>
     (\<forall>fl h. view (FLASH_ClearFlag hw fl h) = view h) \<and>
     (\<forall>a h. fst (load_word hw a h) = le32 (view h) a) \<and>
     (\<forall>a h. view (snd (load_word hw a h)) = view h) \<and>
     (\<forall>a h b. fst (FLASH_ErasePage hw a h) = FLASH_COMPLETE \<longrightarrow> same_page page_size a b \<longrightarrow>
        view (snd (FLASH_ErasePage hw a h)) b = 0xFF) \<and>
     (\<forall>a h b. \<not> same_page page_size a b \<longrightarrow>
        view (snd (FLASH_ErasePage hw a h)) b = view h b) \<and>
     (\<forall>a h b. view h b = 0xFF \<longrightarrow> view (snd (FLASH_ErasePage hw a h)) b = 0xFF) \<and>
     (\<forall>a w h b. b \<noteq> a \<longrightarrow> b \<noteq> a + 1 \<longrightarrow> b \<noteq> a + 2 \<longrightarrow> b \<noteq> a + 3 \<longrightarrow>
        view (snd (FLASH_ProgramWord hw a w h)) b = view h b)"


subsection \<open>A simulated medium\<close>

text \<open>
  A NOR array for running the port on concrete inputs: every byte is a cell, an erase sets
  the cells of a page to \<open>0xFF\<close>, programming can only clear bits (the new content is the
  old one AND the data). Cells listed as defective are stuck at \<open>0x00\<close>, and a page erase
  reports \<open>FLASH_ERROR_PG\<close> when its page holds a defective cell.
\<close>

record nor_flash =
  cells :: "u32 \<Rightarrow> u8"
  defects :: "u32 list"

definition nor_view :: "nor_flash \<Rightarrow> u32 \<Rightarrow> u8" where
  "nor_view s a = (if a \<in> set (defects s) then 0 else cells s a)"

definition nor_erase_page :: "u32 \<Rightarrow> u32 \<Rightarrow> nor_flash \<Rightarrow> FLASH_Status \<times> nor_flash" where
  "nor_erase_page page_size a s =
     (if list_ex (same_page page_size a) (defects s) then FLASH_ERROR_PG else FLASH_COMPLETE,
      s\<lparr>cells := (\<lambda>b. if same_page page_size a b then 0xFF else cells s b)\<rparr>)"

definition nor_program_word :: "u32 \<Rightarrow> u32 \<Rightarrow> nor_flash \<Rightarrow> FLASH_Status \<times> nor_flash" where
  "nor_program_word a w s =
     (FLASH_COMPLETE,
      s\<lparr>cells := (\<lambda>b. if b = a then cells s b AND byte_of w 0
                        else if b = a + 1 then cells s b AND byte_of w 1
                        else if b = a + 2 then cells s b AND byte_of w 2
                        else if b = a + 3 then cells s b AND byte_of w 3
                        else cells s b)\<rparr>)"

definition nor_hal :: "u32 \<Rightarrow> nor_flash flash_hal" where
  "nor_hal page_size =
     \<lparr>FLASH_Unlock = (\<lambda>s. s),
      FLASH_Lock = (\<lambda>s. s),
      FLASH_ClearFlag = (\<lambda>fl s. s),
      FLASH_ErasePage = nor_erase_page page_size,
      FLASH_ProgramWord = nor_program_word,
      load_word = (\<lambda>a s. (le32 (nor_view s) a, s))\<rparr>"

text \<open>Two media without defects: one fully programmed, one fully erased.\<close>

definition zeroed :: nor_flash where
  "zeroed = \<lparr>cells = (\<lambda>a. 0x00), defects = []\<rparr>"

definition blank :: nor_flash where
  "blank = \<lparr>cells = (\<lambda>a. 0xFF), defects = []\<rparr>"


subsection \<open>Notions for stating the properties\<close>

text \<open>
  The spec's page count \<open>ceil(size_in_bytes / page_size)\<close>, on natural numbers.
\<close>

definition ceil_div :: "nat \<Rightarrow> nat \<Rightarrow> nat" where
  "ceil_div n d = (n + d - 1) div d"

text \<open>
  The accesses of a run of page erases that all completed: pages \<open>i\<close> up to \<open>k\<close>, one
  after the other, page \<open>j\<close> at \<open>addr + page_size * j\<close>.
\<close>

definition erase_calls :: "u32 \<Rightarrow> u32 \<Rightarrow> nat \<Rightarrow> nat \<Rightarrow> hw_call list" where
  "erase_calls page_size addr i k =
     map (\<lambda>j. ErasePage (addr + page_size * of_nat j) FLASH_COMPLETE) [i..<k]"

text \<open>
  The accesses of \<open>k\<close> words written and verified: word \<open>j\<close> of the buffer is programmed
  at \<open>addr + 4 * j\<close> and the load that follows at the same address returns that word.
\<close>

definition verified_calls :: "u32 \<Rightarrow> u32 list \<Rightarrow> nat \<Rightarrow> hw_call list" where
  "verified_calls addr ws k =
     concat (map (\<lambda>j. [ProgramWord (addr + 4 * of_nat j) (ws ! j),
                        Load (addr + 4 * of_nat j) (ws ! j)]) [0..<k])"

text \<open>The accesses of reading the words \<open>vs\<close>: word \<open>j\<close> is loaded at \<open>addr + 4 * j\<close>.\<close>

definition load_calls :: "u32 \<Rightarrow> u32 list \<Rightarrow> hw_call list" where
  "load_calls addr vs = map (\<lambda>j. Load (addr + 4 * of_nat j) (vs ! j)) [0..<length vs]"

section \<open>Lemmas\<close>

subsection \<open>The wrapped hardware and the simulated medium\<close>

declare erase_loop.simps [simp del]

lemma traced_simps [simp]:
  "FLASH_Unlock (traced hw) (h, l) = (FLASH_Unlock hw h, l @ [Unlock])"
  "FLASH_Lock (traced hw) (h, l) = (FLASH_Lock hw h, l @ [Lock])"
  "FLASH_ClearFlag (traced hw) fl (h, l) = (FLASH_ClearFlag hw fl h, l @ [ClearFlag fl])"
  "FLASH_ErasePage (traced hw) a (h, l) =
     (case FLASH_ErasePage hw a h of (st, h') \<Rightarrow> (st, (h', l @ [ErasePage a st])))"
  "FLASH_ProgramWord (traced hw) a w (h, l) =
     (case FLASH_ProgramWord hw a w h of (st, h') \<Rightarrow> (st, (h', l @ [ProgramWord a w])))"
  "load_word (traced hw) a (h, l) =
     (case load_word hw a h of (v, h') \<Rightarrow> (v, (h', l @ [Load a v])))"
  by (simp_all add: traced_def)

lemma nor_hal_medium: "nor_medium ps (nor_hal ps) nor_view"
  unfolding nor_medium_def
  by (auto simp add: nor_hal_def nor_erase_page_def nor_program_word_def nor_view_def list_ex_iff)


text \<open>The definitions to unfold when a run on the simulated medium is evaluated.\<close>

lemmas run_defs = flash_erase_def PAGE_SIZE_def traced_def nor_hal_def nor_erase_page_def
  nor_program_word_def same_page_def nor_view_def Let_def erase_loop.simps ceil_div_def

lemmas wr_defs = flash_write_def flash_read_def traced_def nor_hal_def nor_program_word_def
  nor_view_def le32_def byte_of_def Let_def blank_def status_flags_def

subsection \<open>Word arithmetic\<close>

lemma unat_word_Suc:
  fixes i n :: u32
  assumes "i < n"
  shows "unat (i + 1) = Suc (unat i)"
proof -
  from assms have "unat i < unat n" by (simp add: word_less_nat_alt)
  moreover have "unat n < 2 ^ 32" using unsigned_less [of n] by simp
  ultimately show ?thesis by (simp add: unat_word_ariths)
qed

lemma unat_lt32: "unat (w :: u32) < 4294967296"
  using unsigned_less [of w, where 'a = nat] by simp

lemma word_mod4_dvd: "(x :: u32) mod 4 = 0 \<longleftrightarrow> 4 dvd unat x"
proof -
  have "x mod 4 = 0 \<longleftrightarrow> unat (x mod 4) = 0" by (simp add: unat_eq_0)
  also have "unat (x mod 4) = unat x mod 4" by (simp add: unat_mod)
  finally show ?thesis by (simp add: dvd_eq_mod_eq_0)
qed

lemma ceil_div_qt:
  fixes d q t :: nat
  assumes "t < d"
  shows "(d * q + t + d - 1) div d = (if t \<noteq> 0 then q + 1 else q)"
proof (cases t)
  case 0
  have "(d * q + (d - 1)) div d = q + (d - 1) div d"
    using assms by (simp only: div_mult_self4)
  moreover have "d * q + 0 + d - 1 = d * q + (d - 1)" using assms by simp
  ultimately show ?thesis using 0 assms by simp
next
  case (Suc t')
  have "d * q + Suc t' + d - 1 = d * (q + 1) + t'" by (simp add: algebra_simps)
  moreover have "(d * (q + 1) + t') div d = (q + 1) + t' div d"
    using assms by (simp only: div_mult_self4)
  moreover have "t' div d = 0" using Suc assms by simp
  ultimately have "(d * q + Suc t' + d - 1) div d = q + 1" by (simp only: add_0_right)
  then show ?thesis using Suc by simp
qed

lemma ceil_div_if:
  assumes "0 < d"
  shows "ceil_div n d = (if n mod d \<noteq> 0 then n div d + 1 else n div d)"
proof -
  have "n mod d < d" using assms by simp
  from ceil_div_qt [OF this, of "n div d"] show ?thesis
    by (simp only: ceil_div_def mult_div_mod_eq)
qed

lemma ceil4_bounds:
  fixes n :: nat
  assumes "\<not> 4 dvd n"
  shows "ceil_div n 4 = n div 4 + 1 \<and> n < 4 * ceil_div n 4 \<and> 4 * ceil_div n 4 \<le> n + 3"
proof -
  have c: "ceil_div n 4 = n div 4 + 1"
    using assms ceil_div_if [of 4 n] by (simp add: dvd_eq_mod_eq_0)
  define q t where "q = n div 4" and "t = n mod 4"
  have "n = 4 * q + t" "0 < t" "t < 4"
    using assms by (simp_all add: q_def t_def dvd_eq_mod_eq_0)
  then have "n < 4 * (q + 1) \<and> 4 * (q + 1) \<le> n + 3" by auto
  then show ?thesis unfolding c q_def by simp
qed

lemma unat_PAGE_SIZE: "unat (PAGE_SIZE dev) = 1024 \<or> unat (PAGE_SIZE dev) = 2048"
  by (simp add: PAGE_SIZE_def)

lemma PAGE_SIZE_dvd: "unat (PAGE_SIZE dev) dvd 4294967296"
  using unat_PAGE_SIZE [of dev] by (elim disjE) simp_all

lemma PAGE_SIZE_pos: "0 < unat (PAGE_SIZE dev)"
  using unat_PAGE_SIZE [of dev] by (elim disjE) simp_all

lemma erase_pages_ceil:
  "unat (if sz mod PAGE_SIZE dev \<noteq> 0 then sz div PAGE_SIZE dev + 1 else sz div PAGE_SIZE dev)
     = ceil_div (unat sz) (unat (PAGE_SIZE dev))"
proof -
  let ?P = "unat (PAGE_SIZE dev)"
  have P: "1 < ?P" using unat_PAGE_SIZE [of dev] by (elim disjE) simp_all
  have d: "unat (sz div PAGE_SIZE dev) = unat sz div ?P" by (simp add: unat_div)
  have m: "sz mod PAGE_SIZE dev \<noteq> 0 \<longleftrightarrow> unat sz mod ?P \<noteq> 0"
    by (simp add: unat_mod flip: unat_eq_0)
  have "unat sz div ?P \<le> unat sz" by (rule div_le_dividend)
  moreover have "unat sz div ?P < unat sz" if "0 < unat sz"
    using that P by (rule div_less_dividend [rotated])
  ultimately have small: "unat sz div ?P + 1 < 4294967296"
    using unat_lt32 [of sz] by (cases "unat sz = 0") auto
  have s: "unat (sz div PAGE_SIZE dev + 1) = unat sz div ?P + 1"
    using small d by (simp add: unat_word_ariths)
  have c: "ceil_div (unat sz) ?P = (if unat sz mod ?P \<noteq> 0 then unat sz div ?P + 1 else unat sz div ?P)"
    using P by (intro ceil_div_if) simp
  show ?thesis using d m s c by simp
qed

lemma aligned_same_page:
  assumes al: "unat (PAGE_SIZE dev) dvd unat addr"
  shows "same_page (PAGE_SIZE dev) (addr + PAGE_SIZE dev * of_nat (j div unat (PAGE_SIZE dev)))
           (addr + of_nat j)"
proof -
  let ?ps = "PAGE_SIZE dev"
  let ?P = "unat ?ps"
  let ?q = "j div ?P" and ?t = "j mod ?P"
  let ?a = "addr + ?ps * of_nat ?q"
  have Pd: "?P dvd 4294967296" by (rule PAGE_SIZE_dvd)
  have Pp: "0 < ?P" by (rule PAGE_SIZE_pos)
  have j: "(of_nat j :: u32) = ?ps * of_nat ?q + of_nat ?t"
  proof -
    have "j = ?P * ?q + ?t" by simp
    then have "(of_nat j :: u32) = of_nat (?P * ?q + ?t)" by simp
    also have "\<dots> = of_nat ?P * of_nat ?q + of_nat ?t" by (simp only: of_nat_add of_nat_mult)
    also have "(of_nat ?P :: u32) = ?ps" by simp
    finally show ?thesis .
  qed
  then have b: "addr + of_nat j = ?a + of_nat ?t" by simp
  have "unat (?ps * of_nat ?q :: u32) = (?P * unat (of_nat ?q :: u32)) mod 4294967296"
    by (simp add: unat_word_ariths)
  then have "?P dvd unat (?ps * of_nat ?q :: u32)"
    using Pd by (simp add: dvd_mod)
  moreover have "unat ?a = (unat addr + unat (?ps * of_nat ?q :: u32)) mod 4294967296"
    by (simp add: unat_word_ariths)
  ultimately have da: "?P dvd unat ?a" using al Pd by (simp add: dvd_mod)
  have la: "unat ?a < 4294967296" by (rule unat_lt32)
  have t: "?t < ?P" using Pp by simp
  from da obtain c where c: "unat ?a = ?P * c" by (auto simp: dvd_def)
  from Pd obtain e where e: "4294967296 = ?P * e" by (auto simp: dvd_def)
  have "?P * c < 4294967296" using la by (simp only: c)
  then have "?P * c < ?P * e" by (simp only: e)
  then have "c < e" by simp
  then have "Suc c \<le> e" by simp
  then have "?P * Suc c \<le> ?P * e" by (rule mult_le_mono2)
  then have "?P * c + ?P \<le> 4294967296" by (simp only: e mult_Suc_right add.commute)
  then have room: "unat ?a + ?t < 4294967296" using t c by linarith
  have ut: "unat (of_nat ?t :: u32) = ?t"
    using room by (simp add: unat_of_nat)
  have sum: "unat (?a + of_nat ?t) = unat ?a + ?t"
    using room ut by (simp add: unat_word_ariths)
  have "(?P * c + ?t) div ?P = ?P * c div ?P"
    using t Pp by simp
  then have "(unat ?a + ?t) div ?P = unat ?a div ?P"
    using c by simp
  then have "unat ((?a + of_nat ?t) div ?ps) = unat (?a div ?ps)"
    using sum by (simp add: unat_div)
  then have eq: "(?a + of_nat ?t) div ?ps = ?a div ?ps" by (simp add: word_unat_eq_iff)
  show ?thesis by (simp only: same_page_def b eq)
qed

lemma word_step4: "(addr :: u32) + 4 + 4 * of_nat j = addr + 4 * of_nat (Suc j)"
  by (simp add: algebra_simps)

lemma verified_calls_Cons:
  "verified_calls addr (w # ws) (Suc k) =
     ProgramWord addr w # Load addr w # verified_calls (addr + 4) ws k"
proof -
  have "[0..<Suc k] = 0 # map Suc [0..<k]" by (simp add: upt_conv_Cons map_Suc_upt del: upt_Suc)
  then show ?thesis
    by (simp add: verified_calls_def comp_def word_step4 del: upt_Suc of_nat_Suc)
qed

lemma load_calls_Cons:
  "load_calls addr (v # vs) = Load addr v # load_calls (addr + 4) vs"
proof -
  have "[0..<Suc (length vs)] = 0 # map Suc [0..<length vs]"
    by (simp add: upt_conv_Cons map_Suc_upt del: upt_Suc)
  then show ?thesis
    by (simp add: load_calls_def comp_def word_step4 del: upt_Suc of_nat_Suc)
qed

lemma le32_cong:
  "m a = m' a \<Longrightarrow> m (a + 1) = m' (a + 1) \<Longrightarrow> m (a + 2) = m' (a + 2) \<Longrightarrow>
   m (a + 3) = m' (a + 3) \<Longrightarrow> le32 m a = le32 m' a"
  by (simp add: le32_def)

lemma unat_word_plus4:
  fixes i :: u32
  assumes "unat i + 4 < 4294967296"
  shows "unat (i + 4) = unat i + 4"
  using assms by (simp add: unat_word_ariths)

lemma word_minus1:
  fixes sz :: u32
  assumes "0 < sz"
  shows "unat (sz - 1) = unat sz - 1"
  using assms by (simp add: unat_minus_one word_neq_0_conv)

lemma of_nat_neq32:
  assumes "a < 4294967296" "b < 4294967296" "a \<noteq> b"
  shows "(of_nat a :: u32) \<noteq> of_nat b"
proof
  assume "(of_nat a :: u32) = of_nat b"
  then have "unat (of_nat a :: u32) = unat (of_nat b :: u32)" by simp
  with assms show False by (simp add: unat_of_nat)
qed

lemma low_bytes_outside:
  assumes "4 + n \<le> 4294967296" "c < 4" "t < n"
  shows "(addr :: u32) + of_nat c \<noteq> addr + 4 + of_nat t"
proof -
  have "(of_nat c :: u32) \<noteq> of_nat (4 + t)"
    using assms by (intro of_nat_neq32) simp_all
  then show ?thesis by (simp add: add.assoc)
qed

lemma outside_split:
  assumes "\<forall>t < 4 * Suc n. b \<noteq> (addr :: u32) + of_nat t"
  shows "b \<noteq> addr \<and> b \<noteq> addr + 1 \<and> b \<noteq> addr + 2 \<and> b \<noteq> addr + 3 \<and>
         (\<forall>t < 4 * n. b \<noteq> addr + 4 + of_nat t)"
proof -
  have "b \<noteq> addr" using assms [rule_format, of 0] by simp
  moreover have "b \<noteq> addr + 1" using assms [rule_format, of 1] by simp
  moreover have "b \<noteq> addr + 2" using assms [rule_format, of 2] by simp
  moreover have "b \<noteq> addr + 3" using assms [rule_format, of 3] by simp
  moreover have "b \<noteq> addr + 4 + of_nat t" if "t < 4 * n" for t
  proof -
    from that have "4 + t < 4 * Suc n" by simp
    with assms have "b \<noteq> addr + of_nat (4 + t)" by blast
    then show ?thesis by (simp add: add.assoc)
  qed
  ultimately show ?thesis by simp
qed

lemma remaining_words_aux: "(Suc d + 3) div 4 = Suc ((d - 3 + 3) div 4)"
proof (cases "d < 3")
  case True
  then have "d = 0 \<or> d = 1 \<or> d = 2" by linarith
  then show ?thesis by (elim disjE) simp_all
next
  case False
  then obtain e where "d = e + 3" by (metis add.commute le_Suc_ex not_less)
  then show ?thesis by simp
qed

lemma remaining_words:
  assumes "(i :: nat) < sz"
  shows "(sz - i + 3) div 4 = Suc ((sz - (i + 4) + 3) div 4)"
proof -
  from assms obtain d where d: "sz = i + Suc d" by (auto dest: less_imp_Suc_add)
  have a: "sz - i = Suc d" unfolding d by simp
  have b: "sz - (i + 4) = d - 3" unfolding d by simp
  show ?thesis unfolding a b by (rule remaining_words_aux)
qed

subsection \<open>The erase loop\<close>

lemma erase_calls_step:
  "i < k \<Longrightarrow> erase_calls ps addr i k =
     ErasePage (addr + ps * of_nat i) FLASH_COMPLETE # erase_calls ps addr (Suc i) k"
  by (simp add: erase_calls_def upt_conv_Cons)

lemma erase_loop_traced:
  assumes "erase_loop (traced hw) ps addr n i (h, l) = (r, (h', l'))" and "i \<le> n"
  shows "\<exists>m. unat i \<le> m \<and> m \<le> unat n \<and>
           (r = FLASH_NO_ERR \<and> m = unat n \<and> l' = l @ erase_calls ps addr (unat i) m \<or>
            r = FLASH_ERASE_ERR \<and> m < unat n \<and>
              (\<exists>st. st \<noteq> FLASH_COMPLETE \<and>
                 l' = l @ erase_calls ps addr (unat i) m @ [ErasePage (addr + ps * of_nat m) st])) \<and>
           (nor_medium ps hw view \<longrightarrow>
              (\<forall>b. view h b = 0xFF \<longrightarrow> view h' b = 0xFF) \<and>
              (\<forall>j b. unat i \<le> j \<longrightarrow> j < m \<longrightarrow> same_page ps (addr + ps * of_nat j) b \<longrightarrow>
                 view h' b = 0xFF))"
  using assms
proof (induction "unat n - unat i" arbitrary: i h l)
  case 0
  then have "\<not> i < n" by (simp add: word_less_nat_alt)
  with "0.prems" have "r = FLASH_NO_ERR" "h' = h" "l' = l"
    by (simp_all add: erase_loop.simps)
  moreover from 0 have "unat i = unat n" by (simp add: word_le_nat_alt)
  ultimately show ?case by (auto simp: erase_calls_def)
next
  case (Suc d)
  then have lt: "i < n" by (simp add: word_less_nat_alt)
  then have s: "unat (i + 1) = Suc (unat i)" by (rule unat_word_Suc)
  from lt have lt': "unat i < unat n" by (simp add: word_less_nat_alt)
  obtain st h1 where E: "FLASH_ErasePage hw (addr + ps * i) h = (st, h1)"
    by (cases "FLASH_ErasePage hw (addr + ps * i) h")
  show ?case
  proof (cases "st = FLASH_COMPLETE")
    case False
    with Suc.prems lt E have res: "r = FLASH_ERASE_ERR" "h' = h1" "l' = l @ [ErasePage (addr + ps * i) st]"
      by (simp_all add: erase_loop.simps [of _ _ _ _ i])
    have keep: "nor_medium ps hw view \<Longrightarrow> view h b = 0xFF \<Longrightarrow> view h1 b = 0xFF" for b
      using E unfolding nor_medium_def by (metis snd_conv)
    show ?thesis
      apply (rule exI [of _ "unat i"])
      using res lt' False keep by (auto simp: erase_calls_def)
  next
    case True
    with Suc.prems lt E have rec:
      "erase_loop (traced hw) ps addr n (i + 1) (h1, l @ [ErasePage (addr + ps * i) FLASH_COMPLETE]) = (r, (h', l'))"
      by (simp add: erase_loop.simps [of _ _ _ _ i])
    have d: "d = unat n - unat (i + 1)" using Suc.hyps(2) s by simp
    have le: "i + 1 \<le> n" using lt' s by (simp add: word_le_nat_alt)
    from Suc.hyps(1) [OF d rec le] obtain m where m:
      "unat (i + 1) \<le> m" "m \<le> unat n"
      "r = FLASH_NO_ERR \<and> m = unat n \<and>
         l' = (l @ [ErasePage (addr + ps * i) FLASH_COMPLETE]) @ erase_calls ps addr (unat (i + 1)) m \<or>
       r = FLASH_ERASE_ERR \<and> m < unat n \<and>
         (\<exists>st. st \<noteq> FLASH_COMPLETE \<and>
            l' = (l @ [ErasePage (addr + ps * i) FLASH_COMPLETE]) @ erase_calls ps addr (unat (i + 1)) m @
                 [ErasePage (addr + ps * of_nat m) st])"
      "nor_medium ps hw view \<longrightarrow>
         (\<forall>b. view h1 b = 0xFF \<longrightarrow> view h' b = 0xFF) \<and>
         (\<forall>j b. unat (i + 1) \<le> j \<longrightarrow> j < m \<longrightarrow> same_page ps (addr + ps * of_nat j) b \<longrightarrow>
            view h' b = 0xFF)"
      by blast
    have step: "erase_calls ps addr (unat i) m =
        ErasePage (addr + ps * i) FLASH_COMPLETE # erase_calls ps addr (unat (i + 1)) m"
      using m(1) s erase_calls_step [of "unat i" m ps addr] by simp
    have keep: "nor_medium ps hw view \<Longrightarrow> view h b = 0xFF \<Longrightarrow> view h1 b = 0xFF" for b
      using E unfolding nor_medium_def by (metis snd_conv)
    have page: "nor_medium ps hw view \<Longrightarrow> same_page ps (addr + ps * i) b \<Longrightarrow> view h1 b = 0xFF" for b
      using E True unfolding nor_medium_def by (metis fst_conv snd_conv)
    have content: "view h' b = 0xFF"
      if nm: "nor_medium ps hw view" and j: "unat i \<le> j" "j < m"
        and sp: "same_page ps (addr + ps * of_nat j) b" for j b
    proof (cases "j = unat i")
      case True
      with sp have "same_page ps (addr + ps * i) b" by simp
      then have "view h1 b = 0xFF" using nm by (rule page [rotated])
      with m(4) nm show ?thesis by blast
    next
      case False
      with j s have "unat (i + 1) \<le> j" by simp
      with m(4) nm j sp show ?thesis by blast
    qed
    show ?thesis
      apply (rule exI [of _ m])
      using m(1,2,3,4) s step keep content by auto
  qed
qed

lemma flash_erase_traced:
  assumes "flash_erase (traced hw) dev addr sz (h, l) = (r, (h', l'))"
  shows "\<exists>m. m \<le> ceil_div (unat sz) (unat (PAGE_SIZE dev)) \<and>
           (r = FLASH_NO_ERR \<and> m = ceil_div (unat sz) (unat (PAGE_SIZE dev)) \<and>
              l' = l @ [Unlock, ClearFlag status_flags] @ erase_calls (PAGE_SIZE dev) addr 0 m @ [Lock] \<or>
            r = FLASH_ERASE_ERR \<and> m < ceil_div (unat sz) (unat (PAGE_SIZE dev)) \<and>
              (\<exists>st. st \<noteq> FLASH_COMPLETE \<and>
                 l' = l @ [Unlock, ClearFlag status_flags] @ erase_calls (PAGE_SIZE dev) addr 0 m @
                      [ErasePage (addr + PAGE_SIZE dev * of_nat m) st, Lock])) \<and>
           (nor_medium (PAGE_SIZE dev) hw view \<longrightarrow>
              (\<forall>b. view h b = 0xFF \<longrightarrow> view h' b = 0xFF) \<and>
              (\<forall>j b. j < m \<longrightarrow> same_page (PAGE_SIZE dev) (addr + PAGE_SIZE dev * of_nat j) b \<longrightarrow>
                 view h' b = 0xFF))"
proof -
  let ?ps = "PAGE_SIZE dev"
  let ?n = "if sz mod ?ps \<noteq> 0 then sz div ?ps + 1 else sz div ?ps"
  let ?h2 = "FLASH_ClearFlag hw status_flags (FLASH_Unlock hw h)"
  let ?l2 = "l @ [Unlock, ClearFlag status_flags]"
  obtain r3 h3 l3 where L: "erase_loop (traced hw) ?ps addr ?n 0 (?h2, ?l2) = (r3, (h3, l3))"
    by (metis surj_pair)
  with assms have fin: "r = r3" "h' = FLASH_Lock hw h3" "l' = l3 @ [Lock]"
    by (simp_all add: flash_erase_def Let_def)
  from erase_loop_traced [OF L, of view] obtain m where m:
    "m \<le> unat ?n"
    "r3 = FLASH_NO_ERR \<and> m = unat ?n \<and> l3 = ?l2 @ erase_calls ?ps addr 0 m \<or>
     r3 = FLASH_ERASE_ERR \<and> m < unat ?n \<and>
       (\<exists>st. st \<noteq> FLASH_COMPLETE \<and>
          l3 = ?l2 @ erase_calls ?ps addr 0 m @ [ErasePage (addr + ?ps * of_nat m) st])"
    "nor_medium ?ps hw view \<longrightarrow>
       (\<forall>b. view ?h2 b = 0xFF \<longrightarrow> view h3 b = 0xFF) \<and>
       (\<forall>j b. j < m \<longrightarrow> same_page ?ps (addr + ?ps * of_nat j) b \<longrightarrow> view h3 b = 0xFF)"
    by auto
  have n: "unat ?n = ceil_div (unat sz) (unat ?ps)" by (rule erase_pages_ceil)
  have v: "nor_medium ?ps hw view \<Longrightarrow> view ?h2 = view h \<and> view h' = view h3"
    using fin by (simp add: nor_medium_def)
  have trace: "r = FLASH_NO_ERR \<and> m = ceil_div (unat sz) (unat ?ps) \<and>
              l' = l @ [Unlock, ClearFlag status_flags] @ erase_calls ?ps addr 0 m @ [Lock] \<or>
            r = FLASH_ERASE_ERR \<and> m < ceil_div (unat sz) (unat ?ps) \<and>
              (\<exists>st. st \<noteq> FLASH_COMPLETE \<and>
                 l' = l @ [Unlock, ClearFlag status_flags] @ erase_calls ?ps addr 0 m @
                      [ErasePage (addr + ?ps * of_nat m) st, Lock])"
    using m(2) fin(1,3) unfolding n by auto
  have content: "nor_medium ?ps hw view \<longrightarrow>
              (\<forall>b. view h b = 0xFF \<longrightarrow> view h' b = 0xFF) \<and>
              (\<forall>j b. j < m \<longrightarrow> same_page ?ps (addr + ?ps * of_nat j) b \<longrightarrow> view h' b = 0xFF)"
    using m(3) v by simp
  from m(1) have "m \<le> ceil_div (unat sz) (unat ?ps)" unfolding n .
  with trace content show ?thesis by blast
qed





subsection \<open>The read loop\<close>

lemma read_loop_traced:
  assumes "unat sz \<le> length buf"
  shows "\<exists>vs h'. read_loop (traced hw) addr buf sz (h, l) =
             Some (vs @ drop (unat sz) buf, (h', l @ load_calls addr vs)) \<and>
           length vs = unat sz \<and>
           (nor_medium ps hw view \<longrightarrow>
              view h' = view h \<and> (\<forall>j < unat sz. vs ! j = le32 (view h) (addr + 4 * of_nat j)))"
  using assms
proof (induction buf arbitrary: addr sz h l)
  case Nil
  then have "sz = 0" by (simp add: unat_eq_0)
  then show ?case by (simp add: load_calls_def)
next
  case (Cons b bs)
  show ?case
  proof (cases "0 < sz")
    case False
    then have "sz = 0" using word_neq_0_conv [of sz] by blast
    then show ?thesis by (simp add: load_calls_def)
  next
    case True
    then have u: "unat (sz - 1) = unat sz - 1" by (rule word_minus1)
    from True have pos: "0 < unat sz" by (simp add: word_less_nat_alt)
    obtain v h1 where L: "load_word hw addr h = (v, h1)" by (cases "load_word hw addr h")
    have "unat (sz - 1) \<le> length bs" using Cons.prems u by simp
    from Cons.IH [OF this, of "addr + 4" h1 "l @ [Load addr v]"] obtain vs h' where
      rec: "read_loop (traced hw) (addr + 4) bs (sz - 1) (h1, l @ [Load addr v]) =
             Some (vs @ drop (unat (sz - 1)) bs, (h', (l @ [Load addr v]) @ load_calls (addr + 4) vs))"
      and len: "length vs = unat (sz - 1)"
      and cont: "nor_medium ps hw view \<longrightarrow>
              view h' = view h1 \<and>
              (\<forall>j < unat (sz - 1). vs ! j = le32 (view h1) (addr + 4 + 4 * of_nat j))"
      by blast
    have d: "drop (unat sz) (b # bs) = drop (unat (sz - 1)) bs"
      using pos u by (cases "unat sz") simp_all
    have res: "read_loop (traced hw) addr (b # bs) sz (h, l) =
             Some ((v # vs) @ drop (unat sz) (b # bs), (h', l @ load_calls addr (v # vs)))"
      using True L rec d by (simp add: load_calls_Cons)
    have len': "length (v # vs) = unat sz" using len u pos by simp
    have cont': "view h' = view h \<and>
        (\<forall>j < unat sz. (v # vs) ! j = le32 (view h) (addr + 4 * of_nat j))"
      if nm: "nor_medium ps hw view"
    proof -
      from nm L have v: "v = le32 (view h) addr" and h1: "view h1 = view h"
        unfolding nor_medium_def by (metis fst_conv, metis snd_conv)
      from cont nm have c: "view h' = view h1"
        "\<And>j. j < unat (sz - 1) \<Longrightarrow> vs ! j = le32 (view h1) (addr + 4 + 4 * of_nat j)"
        by auto
      have "(v # vs) ! j = le32 (view h) (addr + 4 * of_nat j)" if "j < unat sz" for j
      proof (cases j)
        case 0
        then show ?thesis using v by simp
      next
        case (Suc j')
        with that u have "j' < unat (sz - 1)" by simp
        from c(2) [OF this] show ?thesis
          unfolding Suc h1 word_step4 by simp
      qed
      with c(1) h1 show ?thesis by simp
    qed
    from res len' cont' show ?thesis by blast
  qed
qed

subsection \<open>The write loop\<close>

lemma write_loop_traced:
  assumes "write_loop (traced hw) addr ws sz i (h, l) = Some (r, (h', l'))"
    and room: "unat i + 4 * length ws < 4294967296"
  shows "\<exists>k. k \<le> length ws \<and> k \<le> (unat sz - unat i + 3) div 4 \<and>
           (r = FLASH_NO_ERR \<and> k = (unat sz - unat i + 3) div 4 \<and>
              l' = l @ verified_calls addr ws k \<or>
            r = FLASH_WRITE_ERR \<and> k < (unat sz - unat i + 3) div 4 \<and> k < length ws \<and>
              (\<exists>v. v \<noteq> ws ! k \<and>
                 l' = l @ verified_calls addr ws k @
                      [ProgramWord (addr + 4 * of_nat k) (ws ! k), Load (addr + 4 * of_nat k) v])) \<and>
           (nor_medium ps hw view \<longrightarrow>
              (\<forall>b. (\<forall>t < 4 * length ws. b \<noteq> addr + of_nat t) \<longrightarrow> view h' b = view h b) \<and>
              (\<forall>j < k. le32 (view h') (addr + 4 * of_nat j) = ws ! j))"
  using assms
proof (induction ws arbitrary: addr i h l)
  case Nil
  then have "\<not> i < sz" "r = FLASH_NO_ERR" "h' = h" "l' = l"
    by (simp_all split: if_splits)
  moreover from this have "(unat sz - unat i + 3) div 4 = 0" by (simp add: word_less_nat_alt)
  ultimately show ?case by (simp add: verified_calls_def)
next
  case (Cons w ws)
  show ?case
  proof (cases "i < sz")
    case False
    with Cons.prems have "r = FLASH_NO_ERR" "h' = h" "l' = l" by simp_all
    moreover from False have "(unat sz - unat i + 3) div 4 = 0" by (simp add: word_less_nat_alt)
    ultimately show ?thesis by (simp add: verified_calls_def)
  next
    case True
    then have lt: "unat i < unat sz" by (simp add: word_less_nat_alt)
    have R: "(unat sz - unat i + 3) div 4 = Suc ((unat sz - (unat i + 4) + 3) div 4)"
      using lt by (rule remaining_words)
    from Cons.prems(2) have i4: "unat (i + 4) = unat i + 4"
      by (intro unat_word_plus4) simp
    obtain st h1 where P: "FLASH_ProgramWord hw addr w h = (st, h1)"
      by (cases "FLASH_ProgramWord hw addr w h")
    obtain v h2 where L: "load_word hw addr h1 = (v, h2)"
      by (cases "load_word hw addr h1")
    have frame1: "view h2 b = view h b"
      if "nor_medium ps hw view" "b \<noteq> addr" "b \<noteq> addr + 1" "b \<noteq> addr + 2" "b \<noteq> addr + 3" for b
    proof -
      from that P have "view h1 b = view h b" unfolding nor_medium_def by (metis snd_conv)
      moreover from that(1) L have "view h2 = view h1" unfolding nor_medium_def by (metis snd_conv)
      ultimately show ?thesis by simp
    qed
    have readback: "v = le32 (view h2) addr" if "nor_medium ps hw view"
    proof -
      from that L have "v = le32 (view h1) addr" unfolding nor_medium_def by (metis fst_conv)
      moreover from that L have "view h2 = view h1" unfolding nor_medium_def by (metis snd_conv)
      ultimately show ?thesis by simp
    qed
    show ?thesis
    proof (cases "v = w")
      case False
      with Cons.prems(1) True P L have res: "r = FLASH_WRITE_ERR" "h' = h2"
        "l' = l @ [ProgramWord addr w, Load addr v]"
        by simp_all
      have fr: "view h' b = view h b"
        if nm: "nor_medium ps hw view" and out: "\<forall>t < 4 * length (w # ws). b \<noteq> addr + of_nat t" for b
      proof -
        from out have "\<forall>t < 4 * Suc (length ws). b \<noteq> addr + of_nat t" by simp
        from outside_split [OF this] nm res(2) show ?thesis by (simp add: frame1)
      qed
      show ?thesis
        apply (rule exI [of _ 0])
        using res False R fr by (auto simp: verified_calls_def)
    next
      case same: True
      with Cons.prems(1) True P L have rec:
        "write_loop (traced hw) (addr + 4) ws sz (i + 4) (h2, l @ [ProgramWord addr w, Load addr w])
           = Some (r, (h', l'))"
        by simp
      have room': "unat (i + 4) + 4 * length ws < 4294967296"
        using Cons.prems(2) i4 by simp
      from Cons.IH [OF rec room'] obtain k where k:
        "k \<le> length ws" "k \<le> (unat sz - unat (i + 4) + 3) div 4"
        "r = FLASH_NO_ERR \<and> k = (unat sz - unat (i + 4) + 3) div 4 \<and>
           l' = (l @ [ProgramWord addr w, Load addr w]) @ verified_calls (addr + 4) ws k \<or>
         r = FLASH_WRITE_ERR \<and> k < (unat sz - unat (i + 4) + 3) div 4 \<and> k < length ws \<and>
           (\<exists>v. v \<noteq> ws ! k \<and>
              l' = (l @ [ProgramWord addr w, Load addr w]) @ verified_calls (addr + 4) ws k @
                   [ProgramWord (addr + 4 + 4 * of_nat k) (ws ! k),
                    Load (addr + 4 + 4 * of_nat k) v])"
        "nor_medium ps hw view \<longrightarrow>
           (\<forall>b. (\<forall>t < 4 * length ws. b \<noteq> addr + 4 + of_nat t) \<longrightarrow> view h' b = view h2 b) \<and>
           (\<forall>j < k. le32 (view h') (addr + 4 + 4 * of_nat j) = ws ! j)"
        by blast
      have trace:
        "r = FLASH_NO_ERR \<and> Suc k = (unat sz - unat i + 3) div 4 \<and>
           l' = l @ verified_calls addr (w # ws) (Suc k) \<or>
         r = FLASH_WRITE_ERR \<and> Suc k < (unat sz - unat i + 3) div 4 \<and> Suc k < length (w # ws) \<and>
           (\<exists>v. v \<noteq> (w # ws) ! Suc k \<and>
              l' = l @ verified_calls addr (w # ws) (Suc k) @
                   [ProgramWord (addr + 4 * of_nat (Suc k)) ((w # ws) ! Suc k),
                    Load (addr + 4 * of_nat (Suc k)) v])"
        using k(3) unfolding R i4 verified_calls_Cons word_step4 by auto
      have fr: "view h' b = view h b"
        if nm: "nor_medium ps hw view" and out: "\<forall>t < 4 * length (w # ws). b \<noteq> addr + of_nat t" for b
      proof -
        from out have "\<forall>t < 4 * Suc (length ws). b \<noteq> addr + of_nat t" by simp
        from outside_split [OF this] have o: "b \<noteq> addr" "b \<noteq> addr + 1" "b \<noteq> addr + 2" "b \<noteq> addr + 3"
          "\<forall>t < 4 * length ws. b \<noteq> addr + 4 + of_nat t" by simp_all
        from k(4) nm o(5) have "view h' b = view h2 b" by blast
        with frame1 [OF nm o(1-4)] show ?thesis by simp
      qed
      have keep: "view h' (addr + of_nat c) = view h2 (addr + of_nat c)"
        if nm: "nor_medium ps hw view" and c: "c < 4" for c
      proof -
        have n: "4 + 4 * length ws \<le> 4294967296" using Cons.prems(2) by simp
        have "\<forall>t < 4 * length ws. addr + of_nat c \<noteq> addr + 4 + of_nat t"
        proof (intro allI impI)
          fix t assume "t < 4 * length ws"
          with n c show "addr + of_nat c \<noteq> addr + 4 + of_nat t" by (rule low_bytes_outside)
        qed
        with k(4) nm show ?thesis by blast
      qed
      have first: "le32 (view h') addr = w" if nm: "nor_medium ps hw view"
      proof -
        have "le32 (view h') addr = le32 (view h2) addr"
          using keep [OF nm, of 0] keep [OF nm, of 1] keep [OF nm, of 2] keep [OF nm, of 3]
          by (intro le32_cong) simp_all
        with readback [OF nm] same show ?thesis by simp
      qed
      have cont: "le32 (view h') (addr + 4 * of_nat j) = (w # ws) ! j"
        if nm: "nor_medium ps hw view" and j: "j < Suc k" for j
      proof (cases j)
        case 0
        then show ?thesis using first [OF nm] by simp
      next
        case (Suc j')
        with j have "j' < k" by simp
        with k(4) nm have "le32 (view h') (addr + 4 + 4 * of_nat j') = ws ! j'" by blast
        then show ?thesis unfolding Suc word_step4 by simp
      qed
      have b1: "Suc k \<le> length (w # ws)" using k(1) by simp
      have b2: "Suc k \<le> (unat sz - unat i + 3) div 4" using k(2) unfolding R i4 by simp
      from b1 b2 trace fr cont show ?thesis by blast
    qed
  qed
qed

lemma write_loop_total:
  assumes "(unat sz - unat i + 3) div 4 \<le> length ws"
    and "unat i + 4 * length ws < 4294967296"
  shows "\<exists>r h'. write_loop hw addr ws sz i h = Some (r, h')"
  using assms
proof (induction ws arbitrary: addr i h)
  case Nil
  have "\<not> i < sz"
  proof
    assume "i < sz"
    then have "unat i < unat sz" by (simp add: word_less_nat_alt)
    from remaining_words [OF this] Nil.prems(1) show False by simp
  qed
  then show ?case by simp
next
  case (Cons w ws)
  show ?case
  proof (cases "i < sz")
    case False
    then show ?thesis by simp
  next
    case True
    then have lt: "unat i < unat sz" by (simp add: word_less_nat_alt)
    from Cons.prems(2) have i4: "unat (i + 4) = unat i + 4"
      by (intro unat_word_plus4) simp
    obtain st h1 where P: "FLASH_ProgramWord hw addr w h = (st, h1)"
      by (cases "FLASH_ProgramWord hw addr w h")
    obtain v h2 where L: "load_word hw addr h1 = (v, h2)"
      by (cases "load_word hw addr h1")
    have "(unat sz - unat (i + 4) + 3) div 4 \<le> length ws"
      using Cons.prems(1) remaining_words [OF lt] i4 by simp
    moreover have "unat (i + 4) + 4 * length ws < 4294967296"
      using Cons.prems(2) i4 by simp
    ultimately have "\<exists>r h'. write_loop hw (addr + 4) ws sz (i + 4) h2 = Some (r, h')"
      by (rule Cons.IH)
    then obtain r h' where "write_loop hw (addr + 4) ws sz (i + 4) h2 = Some (r, h')"
      by blast
    with True P L show ?thesis by simp
  qed
qed

lemma write_loop_untraced:
  "write_loop hw addr ws sz i h =
     map_option (\<lambda>(r, (h', l')). (r, h')) (write_loop (traced hw) addr ws sz i (h, l))"
proof (induction ws arbitrary: addr i h l)
  case Nil
  show ?case by simp
next
  case (Cons w ws)
  obtain st h1 where P: "FLASH_ProgramWord hw addr w h = (st, h1)"
    by (cases "FLASH_ProgramWord hw addr w h")
  obtain v h2 where L: "load_word hw addr h1 = (v, h2)"
    by (cases "load_word hw addr h1")
  from P L Cons.IH [of "addr + 4" "i + 4" h2 "l @ [ProgramWord addr w, Load addr w]"]
  show ?case by simp
qed

lemma read_loop_untraced:
  "read_loop hw addr buf sz h =
     map_option (\<lambda>(vs, (h', l')). (vs, h')) (read_loop (traced hw) addr buf sz (h, l))"
proof (induction buf arbitrary: addr sz h l)
  case Nil
  show ?case by simp
next
  case (Cons b bs)
  obtain v h1 where L: "load_word hw addr h = (v, h1)" by (cases "load_word hw addr h")
  from L Cons.IH [of "addr + 4" "sz - 1" h1 "l @ [Load addr v]"]
  show ?case by (auto split: option.splits)
qed

lemma flash_write_untraced:
  "flash_write hw addr buf sz h =
     map_option (\<lambda>(r, (h', l')). (r, h')) (flash_write (traced hw) addr buf sz (h, l))"
  using write_loop_untraced
    [of hw addr buf sz 0 "FLASH_ClearFlag hw status_flags (FLASH_Unlock hw h)"
        "l @ [Unlock, ClearFlag status_flags]"]
  by (auto simp: flash_write_def Let_def split: option.splits)

lemma flash_read_untraced:
  "flash_read hw addr buf sz h =
     map_option (\<lambda>(r, vs, (h', l')). (r, vs, h')) (flash_read (traced hw) addr buf sz (h, l))"
  using read_loop_untraced [of hw addr buf sz h l]
  by (auto simp: flash_read_def Let_def split: option.splits)

lemma flash_write_traced:
  assumes "flash_write (traced hw) addr buf sz (h, l) = Some (r, (h', l'))"
    and room: "length buf < 1073741824"
  shows "\<exists>k. k \<le> length buf \<and> k \<le> ceil_div (unat sz) 4 \<and>
           (r = FLASH_NO_ERR \<and> k = ceil_div (unat sz) 4 \<and>
              l' = l @ [Unlock, ClearFlag status_flags] @ verified_calls addr buf k @ [Lock] \<or>
            r = FLASH_WRITE_ERR \<and> k < ceil_div (unat sz) 4 \<and> k < length buf \<and>
              (\<exists>v. v \<noteq> buf ! k \<and>
                 l' = l @ [Unlock, ClearFlag status_flags] @ verified_calls addr buf k @
                      [ProgramWord (addr + 4 * of_nat k) (buf ! k),
                       Load (addr + 4 * of_nat k) v, Lock])) \<and>
           (nor_medium ps hw view \<longrightarrow>
              (\<forall>b. (\<forall>t < 4 * length buf. b \<noteq> addr + of_nat t) \<longrightarrow> view h' b = view h b) \<and>
              (\<forall>j < k. le32 (view h') (addr + 4 * of_nat j) = buf ! j))"
proof -
  let ?h2 = "FLASH_ClearFlag hw status_flags (FLASH_Unlock hw h)"
  let ?l2 = "l @ [Unlock, ClearFlag status_flags]"
  from assms(1) obtain h3 l3 where
    W: "write_loop (traced hw) addr buf sz 0 (?h2, ?l2) = Some (r, (h3, l3))"
    and fin: "h' = FLASH_Lock hw h3" "l' = l3 @ [Lock]"
    by (auto simp: flash_write_def Let_def split: option.splits)
  have room': "unat (0 :: u32) + 4 * length buf < 4294967296" using room by simp
  have c: "(unat sz - unat (0 :: u32) + 3) div 4 = ceil_div (unat sz) 4"
    by (simp add: ceil_div_def)
  from write_loop_traced [OF W room', of ps view] obtain k where k:
    "k \<le> length buf" "k \<le> ceil_div (unat sz) 4"
    "r = FLASH_NO_ERR \<and> k = ceil_div (unat sz) 4 \<and> l3 = ?l2 @ verified_calls addr buf k \<or>
     r = FLASH_WRITE_ERR \<and> k < ceil_div (unat sz) 4 \<and> k < length buf \<and>
       (\<exists>v. v \<noteq> buf ! k \<and>
          l3 = ?l2 @ verified_calls addr buf k @
               [ProgramWord (addr + 4 * of_nat k) (buf ! k), Load (addr + 4 * of_nat k) v])"
    "nor_medium ps hw view \<longrightarrow>
       (\<forall>b. (\<forall>t < 4 * length buf. b \<noteq> addr + of_nat t) \<longrightarrow> view h3 b = view ?h2 b) \<and>
       (\<forall>j < k. le32 (view h3) (addr + 4 * of_nat j) = buf ! j)"
    unfolding c by blast
  have v: "nor_medium ps hw view \<Longrightarrow> view ?h2 = view h \<and> view h' = view h3"
    using fin by (simp add: nor_medium_def)
  have trace: "r = FLASH_NO_ERR \<and> k = ceil_div (unat sz) 4 \<and>
              l' = l @ [Unlock, ClearFlag status_flags] @ verified_calls addr buf k @ [Lock] \<or>
            r = FLASH_WRITE_ERR \<and> k < ceil_div (unat sz) 4 \<and> k < length buf \<and>
              (\<exists>v. v \<noteq> buf ! k \<and>
                 l' = l @ [Unlock, ClearFlag status_flags] @ verified_calls addr buf k @
                      [ProgramWord (addr + 4 * of_nat k) (buf ! k),
                       Load (addr + 4 * of_nat k) v, Lock])"
    using k(3) fin(2) by auto
  have content: "nor_medium ps hw view \<longrightarrow>
              (\<forall>b. (\<forall>t < 4 * length buf. b \<noteq> addr + of_nat t) \<longrightarrow> view h' b = view h b) \<and>
              (\<forall>j < k. le32 (view h') (addr + 4 * of_nat j) = buf ! j)"
    using k(4) v by simp
  from k(1,2) trace content show ?thesis by blast
qed

lemma flash_write_total:
  assumes "ceil_div (unat sz) 4 \<le> length buf" and "length buf < 1073741824"
  shows "\<exists>r h'. flash_write hw addr buf sz h = Some (r, h')"
proof -
  have a: "(unat sz - unat (0 :: u32) + 3) div 4 \<le> length buf"
    using assms(1) by (simp add: ceil_div_def)
  have b: "unat (0 :: u32) + 4 * length buf < 4294967296" using assms(2) by simp
  from write_loop_total [OF a b, of hw addr "FLASH_ClearFlag hw status_flags (FLASH_Unlock hw h)"]
  obtain r h' where
    "write_loop hw addr buf sz 0 (FLASH_ClearFlag hw status_flags (FLASH_Unlock hw h)) = Some (r, h')"
    by blast
  then show ?thesis by (simp add: flash_write_def Let_def)
qed

lemma flash_read_traced:
  assumes "unat sz \<le> length buf"
  shows "\<exists>vs h'. flash_read (traced hw) addr buf sz (h, l) =
             Some (FLASH_NO_ERR, vs @ drop (unat sz) buf, (h', l @ load_calls addr vs)) \<and>
           length vs = unat sz \<and>
           (nor_medium ps hw view \<longrightarrow>
              view h' = view h \<and> (\<forall>j < unat sz. vs ! j = le32 (view h) (addr + 4 * of_nat j)))"
proof -
  from read_loop_traced [OF assms, of hw addr h l ps view] obtain vs h' where
    "read_loop (traced hw) addr buf sz (h, l) =
       Some (vs @ drop (unat sz) buf, (h', l @ load_calls addr vs))"
    "length vs = unat sz"
    "nor_medium ps hw view \<longrightarrow>
       view h' = view h \<and> (\<forall>j < unat sz. vs ! j = le32 (view h) (addr + 4 * of_nat j))"
    by blast
  then show ?thesis by (auto simp: flash_read_def Let_def)
qed

section \<open>Region negotiation: flash\_port\_init\<close>

text \<open>
  Claim C5, as amended. For every size hint that is divisible by 4, \<open>flash_port_init\<close>
  returns \<open>FLASH_NO_ERR\<close> and overwrites all four outputs with fixed values: the start
  address \<open>FLASH_BASE + 100 * 1024\<close>, the size of exactly one page (whatever the hint was),
  and the default set of five pairs in their fixed order, the fourth of them
  \<open>(device_id, 1)\<close>. Nothing of the result depends on what the caller's variables held, so
  two calls on the same build give identical results. For a hint that is not divisible
  by 4 the function returns no region at all.
\<close>

theorem flash_port_init_fixed:
  assumes "4 dvd unat (env_size args)" and "4 dvd unat (env_size args')"
  shows "\<exists>out. flash_port_init dev flash_base args = Inr (FLASH_NO_ERR, out) \<and>
           flash_port_init dev flash_base args' = Inr (FLASH_NO_ERR, out) \<and>
           env_addr out = flash_base + 100 * 1024 \<and>
           env_size out = PAGE_SIZE dev \<and>
           unat (env_size out) = 1 * unat (PAGE_SIZE dev) \<and>
           default_env out =
             [(''iap_need_copy_app'', ''0''), (''iap_copy_app_size'', ''0''),
              (''stop_in_bootloader'', ''0''), (''device_id'', ''1''), (''boot_times'', ''0'')] \<and>
           (''device_id'', ''1'') \<in> set (default_env out) \<and>
           default_env_size out = 5"
  using assms
  by (simp add: flash_port_init_def FLASH_ASSERT_def word_mod4_dvd FLASH_ENV_START_ADDR_def
      FLASH_ENV_SECTION_SIZE_def default_env_set_def)

theorem flash_port_init_fixed_witness:
  "flash_port_init STM32F10X_MD 0x08000000
     \<lparr>env_addr = 0, env_size = 4096, default_env = [], default_env_size = 0\<rparr> =
   Inr (FLASH_NO_ERR,
        \<lparr>env_addr = 0x08019000, env_size = 1024,
         default_env = default_env_set, default_env_size = 5\<rparr>) \<and>
   flash_port_init STM32F10X_MD 0x08000000
     \<lparr>env_addr = 7, env_size = 8, default_env = [(''a'', ''b'')], default_env_size = 1\<rparr> =
   flash_port_init STM32F10X_MD 0x08000000
     \<lparr>env_addr = 0, env_size = 4096, default_env = [], default_env_size = 0\<rparr>"
  using flash_port_init_fixed
          [of "\<lparr>env_addr = 0, env_size = 4096, default_env = [], default_env_size = 0\<rparr>"
              "\<lparr>env_addr = 7, env_size = 8, default_env = [(''a'', ''b'')], default_env_size = 1\<rparr>"
              STM32F10X_MD "0x08000000"]
  by (auto simp add: PAGE_SIZE_def default_env_set_def)

text \<open>
  The claim as stated speaks of every size hint. With the hint 1022 the function stops in
  the assertion and returns neither a region nor a dataset.
\<close>

theorem flash_port_init_hint_counterexample:
  "flash_port_init STM32F10X_MD 0x08000000
     \<lparr>env_addr = 0, env_size = 1022, default_env = [], default_env_size = 0\<rparr>
   = Inl ConfigurationFault"
  by (simp add: flash_port_init_def FLASH_ASSERT_def)

text \<open>
  Claim C6. For every size hint that is not divisible by 4, \<open>flash_port_init\<close> ends in the
  configuration fault: the assertion is its first statement, so none of the four outputs
  is written and no result code is returned; the size is neither truncated nor accepted.
  For every hint that is divisible by 4 the assertion passes and the function returns
  \<open>FLASH_NO_ERR\<close>.
\<close>

theorem flash_port_init_size_check:
  "(\<not> 4 dvd unat (env_size args) \<longrightarrow>
      flash_port_init dev flash_base args = Inl ConfigurationFault) \<and>
   (4 dvd unat (env_size args) \<longrightarrow>
      (\<exists>out. flash_port_init dev flash_base args = Inr (FLASH_NO_ERR, out)))"
  by (simp add: flash_port_init_def FLASH_ASSERT_def word_mod4_dvd)

theorem flash_port_init_size_check_witness:
  "flash_port_init STM32F10X_HD 0x08000000
     \<lparr>env_addr = 0, env_size = 2046, default_env = [], default_env_size = 0\<rparr>
     = Inl ConfigurationFault \<and>
   (\<exists>out. flash_port_init STM32F10X_HD 0x08000000
     \<lparr>env_addr = 0, env_size = 2048, default_env = [], default_env_size = 0\<rparr>
     = Inr (FLASH_NO_ERR, out))"
  using flash_port_init_size_check
          [of "\<lparr>env_addr = 0, env_size = 2046, default_env = [], default_env_size = 0\<rparr>"
              STM32F10X_HD "0x08000000"]
        flash_port_init_size_check
          [of "\<lparr>env_addr = 0, env_size = 2048, default_env = [], default_env_size = 0\<rparr>"
              STM32F10X_HD "0x08000000"]
  by simp

section \<open>Reading: flash\_read\<close>

text \<open>
  Claim C7. For every address and every count of words \<open>sz\<close> that the caller's buffer has
  room for, \<open>flash_read\<close> returns \<open>FLASH_NO_ERR\<close>. Its only hardware accesses are \<open>sz\<close>
  loads, in order, load \<open>j\<close> at \<open>addr + 4 * j\<close>; word \<open>j\<close> of the buffer receives what load
  \<open>j\<close> returned and the rest of the buffer is untouched. On a medium that meets
  \<open>nor_medium\<close> word \<open>j\<close> is the content of the medium at \<open>addr + 4 * j\<close>, and the
  content of the medium is the same at every address afterwards. The witness reads three
  words from a range that was just erased with \<open>flash_erase(base, 1500)\<close>.
\<close>

theorem flash_read_copies:
  assumes "unat sz \<le> length buf"
  shows "\<exists>vs h'.
           flash_read (traced hw) addr buf sz (h, []) =
             Some (FLASH_NO_ERR, vs @ drop (unat sz) buf, (h', load_calls addr vs)) \<and>
           length vs = unat sz \<and>
           (nor_medium ps hw view \<longrightarrow>
              (\<forall>j < unat sz. vs ! j = le32 (view h) (addr + 4 * of_nat j)) \<and>
              (\<forall>b. view h' b = view h b))"
proof -
  from flash_read_traced [OF assms, of hw addr h "[]" ps view] obtain vs h' where
    "flash_read (traced hw) addr buf sz (h, []) =
       Some (FLASH_NO_ERR, vs @ drop (unat sz) buf, (h', [] @ load_calls addr vs))"
    "length vs = unat sz"
    "nor_medium ps hw view \<longrightarrow>
       view h' = view h \<and> (\<forall>j < unat sz. vs ! j = le32 (view h) (addr + 4 * of_nat j))"
    by blast
  then show ?thesis by (intro exI [of _ vs] exI [of _ h']) simp
qed

theorem flash_read_copies_witness:
  "map_option (\<lambda>(r, vs, h, log). (r, vs, log))
     (flash_read (traced (nor_hal 1024)) 0x08019000 [0, 0, 0, 7] 3
        (snd (flash_erase (nor_hal 1024) STM32F10X_MD 0x08019000 1500 zeroed), [])) =
   Some (FLASH_NO_ERR, [0xFFFFFFFF, 0xFFFFFFFF, 0xFFFFFFFF, 7],
         [Load 0x08019000 0xFFFFFFFF, Load 0x08019004 0xFFFFFFFF, Load 0x08019008 0xFFFFFFFF])"
proof -
  let ?h = "snd (flash_erase (nor_hal 1024) STM32F10X_MD 0x08019000 1500 zeroed)"
  let ?buf = "[0, 0, 0, 7] :: u32 list"
  have room: "unat (3 :: u32) \<le> length ?buf" by simp
  from flash_read_copies [OF room, of "nor_hal 1024" "0x08019000" ?h 1024 nor_view]
    nor_hal_medium [of 1024]
  obtain vs h' where run: "flash_read (traced (nor_hal 1024)) 0x08019000 ?buf 3 (?h, []) =
        Some (FLASH_NO_ERR, vs @ drop (unat (3 :: u32)) ?buf, (h', load_calls 0x08019000 vs))"
    and len: "length vs = unat (3 :: u32)"
    and vs: "\<forall>j < unat (3 :: u32). vs ! j = le32 (nor_view ?h) (0x08019000 + 4 * of_nat j)"
    by blast
  have e: "le32 (nor_view ?h) 0x08019000 = 0xFFFFFFFF" "le32 (nor_view ?h) 0x08019004 = 0xFFFFFFFF"
    "le32 (nor_view ?h) 0x08019008 = 0xFFFFFFFF"
    by (simp_all add: run_defs zeroed_def le32_def)
  from len have "length vs = 3" by simp
  then obtain a b c where abc: "vs = [a, b, c]"
    by (auto simp: length_Suc_conv numeral_3_eq_3)
  from vs [rule_format, of 0] vs [rule_format, of 1] vs [rule_format, of 2] e
  have "vs ! 0 = 0xFFFFFFFF" "vs ! 1 = 0xFFFFFFFF" "vs ! 2 = 0xFFFFFFFF" by simp_all
  with abc have "vs = [0xFFFFFFFF, 0xFFFFFFFF, 0xFFFFFFFF]" by simp
  moreover have "load_calls 0x08019000 [0xFFFFFFFF, 0xFFFFFFFF, 0xFFFFFFFF] =
      [Load 0x08019000 0xFFFFFFFF, Load 0x08019004 0xFFFFFFFF, Load 0x08019008 0xFFFFFFFF]"
    by (simp add: load_calls_Cons load_calls_def)
  moreover have "drop (unat (3 :: u32)) ?buf = [7]" by simp
  ultimately show ?thesis using run by simp
qed

section \<open>Page erase: flash\_erase\<close>

text \<open>
  Claim C2, as amended. For every address and size, \<open>flash_erase\<close> unlocks, clears the
  flags, erases pages strictly one after the other, page \<open>i\<close> at
  \<open>addr + PAGE_SIZE * i\<close> for \<open>i = 0, 1, \<dots>\<close>, and locks again. With
  \<open>pages = ceil(size / PAGE_SIZE)\<close> it erases exactly \<open>pages\<close> pages when it returns
  \<open>FLASH_NO_ERR\<close>, and fewer completed ones followed by the page that failed otherwise.
  When it returns \<open>FLASH_NO_ERR\<close> and the address is page-aligned, every byte of
  \<open>[addr, addr + pages * PAGE_SIZE)\<close> is erased (\<open>0xFF\<close>), on any medium that meets
  \<open>nor_medium\<close>. The witness runs \<open>erase(base, 1500)\<close> with pages of 1024 bytes: exactly
  two pages, 2048 bytes, are erased.
\<close>

theorem flash_erase_pages:
  assumes "flash_erase (traced hw) dev addr sz (h, []) = (r, (h', log))"
  shows "\<exists>m. m \<le> ceil_div (unat sz) (unat (PAGE_SIZE dev)) \<and>
           (r = FLASH_NO_ERR \<longleftrightarrow> m = ceil_div (unat sz) (unat (PAGE_SIZE dev))) \<and>
           (r = FLASH_NO_ERR \<longrightarrow>
              log = [Unlock, ClearFlag status_flags] @
                    map (\<lambda>i. ErasePage (addr + PAGE_SIZE dev * of_nat i) FLASH_COMPLETE) [0..<m] @
                    [Lock]) \<and>
           (r \<noteq> FLASH_NO_ERR \<longrightarrow> r = FLASH_ERASE_ERR \<and> (\<exists>st. st \<noteq> FLASH_COMPLETE \<and>
              log = [Unlock, ClearFlag status_flags] @
                    map (\<lambda>i. ErasePage (addr + PAGE_SIZE dev * of_nat i) FLASH_COMPLETE) [0..<m] @
                    [ErasePage (addr + PAGE_SIZE dev * of_nat m) st, Lock])) \<and>
           (r = FLASH_NO_ERR \<and> nor_medium (PAGE_SIZE dev) hw view \<and>
              unat (PAGE_SIZE dev) dvd unat addr \<longrightarrow>
              (\<forall>j < ceil_div (unat sz) (unat (PAGE_SIZE dev)) * unat (PAGE_SIZE dev).
                 view h' (addr + of_nat j) = 0xFF))"
proof -
  let ?ps = "PAGE_SIZE dev"
  let ?N = "ceil_div (unat sz) (unat ?ps)"
  from flash_erase_traced [OF assms, of view] obtain m where m:
    "m \<le> ?N"
    "r = FLASH_NO_ERR \<and> m = ?N \<and>
       log = [] @ [Unlock, ClearFlag status_flags] @ erase_calls ?ps addr 0 m @ [Lock] \<or>
     r = FLASH_ERASE_ERR \<and> m < ?N \<and>
       (\<exists>st. st \<noteq> FLASH_COMPLETE \<and>
          log = [] @ [Unlock, ClearFlag status_flags] @ erase_calls ?ps addr 0 m @
                [ErasePage (addr + ?ps * of_nat m) st, Lock])"
    "nor_medium ?ps hw view \<longrightarrow>
       (\<forall>b. view h b = 0xFF \<longrightarrow> view h' b = 0xFF) \<and>
       (\<forall>j b. j < m \<longrightarrow> same_page ?ps (addr + ?ps * of_nat j) b \<longrightarrow> view h' b = 0xFF)"
    by blast
  have bytes: "view h' (addr + of_nat j) = 0xFF"
    if ok: "r = FLASH_NO_ERR" and nm: "nor_medium ?ps hw view"
      and al: "unat ?ps dvd unat addr" and j: "j < ?N * unat ?ps" for j
  proof -
    from ok m(2) have mN: "m = ?N" by auto
    have "j div unat ?ps < m"
      using j mN PAGE_SIZE_pos [of dev] by (simp add: less_mult_imp_div_less)
    moreover have "same_page ?ps (addr + ?ps * of_nat (j div unat ?ps)) (addr + of_nat j)"
      using al by (rule aligned_same_page)
    ultimately show ?thesis using m(3) nm by blast
  qed
  show ?thesis
    apply (rule exI [of _ m])
    using m(1,2) bytes by (auto simp: erase_calls_def)
qed

theorem flash_erase_pages_witness:
  "fst (flash_erase (traced (nor_hal 1024)) STM32F10X_MD 0x08019000 1500 (zeroed, [])) = FLASH_NO_ERR \<and>
   snd (snd (flash_erase (traced (nor_hal 1024)) STM32F10X_MD 0x08019000 1500 (zeroed, []))) =
     [Unlock, ClearFlag status_flags, ErasePage 0x08019000 FLASH_COMPLETE,
      ErasePage 0x08019400 FLASH_COMPLETE, Lock] \<and>
   nor_view (fst (snd (flash_erase (traced (nor_hal 1024)) STM32F10X_MD 0x08019000 1500 (zeroed, []))))
     (0x08019000 + of_nat 2047) = 0xFF"
proof -
  let ?X = "flash_erase (traced (nor_hal 1024)) STM32F10X_MD 0x08019000 1500 (zeroed, [])"
  have run: "?X = (fst ?X, fst (snd ?X), snd (snd ?X))" by simp
  have ok: "fst ?X = FLASH_NO_ERR" by (simp add: flash_erase_def PAGE_SIZE_def nor_hal_def nor_erase_page_def
        erase_loop.simps zeroed_def)
  have P: "PAGE_SIZE STM32F10X_MD = 1024" by (simp add: PAGE_SIZE_def)
  have al: "unat (PAGE_SIZE STM32F10X_MD) dvd unat (0x08019000 :: u32)" by (simp add: P)
  have c: "ceil_div (unat (1500 :: u32)) (unat (PAGE_SIZE STM32F10X_MD)) = 2"
    by (simp add: ceil_div_def P)
  from flash_erase_pages [OF run, of nor_view] ok nor_hal_medium [of 1024] al
  have log: "snd (snd ?X) = [Unlock, ClearFlag status_flags] @
        map (\<lambda>i. ErasePage (0x08019000 + PAGE_SIZE STM32F10X_MD * of_nat i) FLASH_COMPLETE)
          [0..<ceil_div (unat (1500 :: u32)) (unat (PAGE_SIZE STM32F10X_MD))] @ [Lock]"
    and bytes: "\<forall>j < ceil_div (unat (1500 :: u32)) (unat (PAGE_SIZE STM32F10X_MD)) *
                  unat (PAGE_SIZE STM32F10X_MD).
                 nor_view (fst (snd ?X)) (0x08019000 + of_nat j) = 0xFF"
    by (auto simp: P)
  from bytes have "nor_view (fst (snd ?X)) (0x08019000 + of_nat 2047) = 0xFF"
    unfolding c by (auto simp add: P dest!: spec [of _ "2047::nat"])
  moreover from log have "snd (snd ?X) = [Unlock, ClearFlag status_flags,
      ErasePage 0x08019000 FLASH_COMPLETE, ErasePage 0x08019400 FLASH_COMPLETE, Lock]"
    unfolding c by (simp add: P upt_rec [of 0] upt_rec [of 1]  numeral_2_eq_2)
  ultimately show ?thesis using ok by simp
qed

text \<open>
  The claim as stated speaks of every address. At the address \<open>0x08019200\<close>, in the
  middle of a page of 1024 bytes, an erase of 1024 bytes erases the one page that holds the
  address and returns \<open>FLASH_NO_ERR\<close>; the byte 512 further on, inside
  \<open>[addr, addr + 1 * 1024)\<close>, lies in the next page and keeps its content.
\<close>

theorem flash_erase_unaligned_counterexample:
  "nor_medium 1024 (nor_hal 1024) nor_view \<and>
   fst (flash_erase (nor_hal 1024) STM32F10X_MD 0x08019200 1024 zeroed) = FLASH_NO_ERR \<and>
   ceil_div (unat (1024 :: u32)) (unat (PAGE_SIZE STM32F10X_MD)) * unat (PAGE_SIZE STM32F10X_MD)
     = 1024 \<and>
   (512 :: nat) < 1024 \<and>
   nor_view (snd (flash_erase (nor_hal 1024) STM32F10X_MD 0x08019200 1024 zeroed))
     (0x08019200 + of_nat 512) \<noteq> 0xFF"
  using nor_hal_medium [of 1024]
  by (simp add: flash_erase_def PAGE_SIZE_def nor_hal_def nor_erase_page_def nor_view_def
      same_page_def erase_loop.simps zeroed_def ceil_div_def)

text \<open>
  Claim C4. Take any call of \<open>flash_erase\<close> in which some page erase reports a status
  other than \<open>FLASH_COMPLETE\<close>. Then the call returns \<open>FLASH_ERASE_ERR\<close>, and the failing
  erase is the last one made: the accesses are the unlock and the flag clearing, the page
  erases \<open>0, \<dots>, m - 1\<close> that completed, the failing erase of page \<open>m\<close>, and the lock;
  no page after \<open>m\<close> is attempted. On a medium that meets \<open>nor_medium\<close> every byte of
  the pages erased before the failing one is still erased when the call returns.
\<close>

theorem flash_erase_failure:
  assumes run: "flash_erase (traced hw) dev addr sz (h, []) = (r, (h', log))"
    and fails: "ErasePage a st \<in> set log" "st \<noteq> FLASH_COMPLETE"
  shows "r = FLASH_ERASE_ERR \<and>
         (\<exists>m. m < ceil_div (unat sz) (unat (PAGE_SIZE dev)) \<and>
            a = addr + PAGE_SIZE dev * of_nat m \<and>
            log = [Unlock, ClearFlag status_flags] @
                  map (\<lambda>i. ErasePage (addr + PAGE_SIZE dev * of_nat i) FLASH_COMPLETE) [0..<m] @
                  [ErasePage a st, Lock] \<and>
            (nor_medium (PAGE_SIZE dev) hw view \<longrightarrow>
               (\<forall>i b. i < m \<longrightarrow> same_page (PAGE_SIZE dev) (addr + PAGE_SIZE dev * of_nat i) b \<longrightarrow>
                  view h' b = 0xFF)))"
proof -
  let ?ps = "PAGE_SIZE dev"
  let ?N = "ceil_div (unat sz) (unat ?ps)"
  from flash_erase_traced [OF run, of view] obtain m where m:
    "r = FLASH_NO_ERR \<and> m = ?N \<and>
       log = [] @ [Unlock, ClearFlag status_flags] @ erase_calls ?ps addr 0 m @ [Lock] \<or>
     r = FLASH_ERASE_ERR \<and> m < ?N \<and>
       (\<exists>st. st \<noteq> FLASH_COMPLETE \<and>
          log = [] @ [Unlock, ClearFlag status_flags] @ erase_calls ?ps addr 0 m @
                [ErasePage (addr + ?ps * of_nat m) st, Lock])"
    "nor_medium ?ps hw view \<longrightarrow>
       (\<forall>b. view h b = 0xFF \<longrightarrow> view h' b = 0xFF) \<and>
       (\<forall>j b. j < m \<longrightarrow> same_page ?ps (addr + ?ps * of_nat j) b \<longrightarrow> view h' b = 0xFF)"
    by blast
  have none: "\<not> (ErasePage a st \<in> set (erase_calls ?ps addr 0 k))" for k
    using fails(2) by (auto simp: erase_calls_def)
  from m(1) show ?thesis
  proof
    assume "r = FLASH_NO_ERR \<and> m = ?N \<and>
       log = [] @ [Unlock, ClearFlag status_flags] @ erase_calls ?ps addr 0 m @ [Lock]"
    with fails(1) none [of m] show ?thesis by auto
  next
    assume e: "r = FLASH_ERASE_ERR \<and> m < ?N \<and>
       (\<exists>st. st \<noteq> FLASH_COMPLETE \<and>
          log = [] @ [Unlock, ClearFlag status_flags] @ erase_calls ?ps addr 0 m @
                [ErasePage (addr + ?ps * of_nat m) st, Lock])"
    then obtain st' where st': "log = [Unlock, ClearFlag status_flags] @ erase_calls ?ps addr 0 m @
                [ErasePage (addr + ?ps * of_nat m) st', Lock]" by auto
    with fails(1) none [of m] have "a = addr + ?ps * of_nat m" "st' = st" by auto
    with st' e m(2) show ?thesis
      by (auto simp: erase_calls_def intro!: exI [of _ m])
  qed
qed

theorem flash_erase_failure_witness:
  "fst (flash_erase (traced (nor_hal 1024)) STM32F10X_MD 0x08019000 3000
          (\<lparr>cells = (\<lambda>a. 0x00), defects = [0x08019404]\<rparr>, [])) = FLASH_ERASE_ERR \<and>
   snd (snd (flash_erase (traced (nor_hal 1024)) STM32F10X_MD 0x08019000 3000
          (\<lparr>cells = (\<lambda>a. 0x00), defects = [0x08019404]\<rparr>, []))) =
     [Unlock, ClearFlag status_flags, ErasePage 0x08019000 FLASH_COMPLETE,
      ErasePage 0x08019400 FLASH_ERROR_PG, Lock] \<and>
   nor_view (fst (snd (flash_erase (traced (nor_hal 1024)) STM32F10X_MD 0x08019000 3000
          (\<lparr>cells = (\<lambda>a. 0x00), defects = [0x08019404]\<rparr>, [])))) 0x080193FF = 0xFF"
proof -
  let ?s = "\<lparr>cells = (\<lambda>a. 0x00), defects = [0x08019404]\<rparr>"
  let ?X = "flash_erase (traced (nor_hal 1024)) STM32F10X_MD 0x08019000 3000 (?s, [])"
  have run: "?X = (fst ?X, fst (snd ?X), snd (snd ?X))" by simp
  have log: "snd (snd ?X) = [Unlock, ClearFlag status_flags, ErasePage 0x08019000 FLASH_COMPLETE,
      ErasePage 0x08019400 FLASH_ERROR_PG, Lock]"
    by (simp add: run_defs)
  then have mem: "ErasePage 0x08019400 FLASH_ERROR_PG \<in> set (snd (snd ?X))" by simp
  have P: "PAGE_SIZE STM32F10X_MD = 1024" by (simp add: PAGE_SIZE_def)
  from flash_erase_failure [OF run mem, of nor_view] nor_hal_medium [of 1024]
  obtain m where r: "fst ?X = FLASH_ERASE_ERR"
    and lg: "snd (snd ?X) = [Unlock, ClearFlag status_flags] @
          map (\<lambda>i. ErasePage (0x08019000 + PAGE_SIZE STM32F10X_MD * of_nat i) FLASH_COMPLETE) [0..<m] @
          [ErasePage 0x08019400 FLASH_ERROR_PG, Lock]"
    and c: "\<forall>i b. i < m \<longrightarrow>
              same_page (PAGE_SIZE STM32F10X_MD) (0x08019000 + PAGE_SIZE STM32F10X_MD * of_nat i) b \<longrightarrow>
              nor_view (fst (snd ?X)) b = 0xFF"
    by (simp add: P) blast
  from arg_cong [OF lg, of length] have "length (snd (snd ?X)) = m + 4" by simp
  with log have m: "m = 1" by simp
  from c have "same_page (PAGE_SIZE STM32F10X_MD) (0x08019000 + PAGE_SIZE STM32F10X_MD * of_nat 0) 0x080193FF \<longrightarrow>
      nor_view (fst (snd ?X)) 0x080193FF = 0xFF"
    unfolding m by blast
  then have "nor_view (fst (snd ?X)) 0x080193FF = 0xFF" by (simp add: same_page_def P)
  with r log show ?thesis by simp
qed



text \<open>
  Claim C9. With size 0, \<open>flash_erase\<close> computes zero pages: it unlocks, clears the flags
  and locks, makes no page erase, and returns \<open>FLASH_NO_ERR\<close>. On a medium that meets
  \<open>nor_medium\<close> the content is the same at every address afterwards.
\<close>

theorem flash_erase_zero:
  "flash_erase (traced hw) dev addr 0 (h, []) =
     (FLASH_NO_ERR,
      (FLASH_Lock hw (FLASH_ClearFlag hw status_flags (FLASH_Unlock hw h)),
       [Unlock, ClearFlag status_flags, Lock])) \<and>
   (nor_medium (PAGE_SIZE dev) hw view \<longrightarrow>
      (\<forall>b. view (FLASH_Lock hw (FLASH_ClearFlag hw status_flags (FLASH_Unlock hw h))) b = view h b))"
  by (simp add: flash_erase_def erase_loop.simps nor_medium_def)

theorem flash_erase_zero_witness:
  "flash_erase (traced (nor_hal 1024)) STM32F10X_MD 0x08019000 0 (zeroed, []) =
     (FLASH_NO_ERR, (zeroed, [Unlock, ClearFlag status_flags, Lock])) \<and>
   nor_view zeroed 0x08019000 = 0x00"
  using flash_erase_zero [of "nor_hal 1024" STM32F10X_MD "0x08019000" zeroed nor_view]
  by (simp add: nor_hal_def nor_view_def zeroed_def)

section \<open>Verified programming: flash\_write\<close>

text \<open>
  Claim C3. For every call of \<open>flash_write\<close> whose buffer holds the
  \<open>ceil(size / 4)\<close> words to write, the call returns, and its accesses are: the unlock and
  the flag clearing; then, word by word in order, programming word \<open>j\<close> at \<open>addr + 4 * j\<close>
  and at once loading the same address back; then the lock. Either every load returned
  the word programmed, all \<open>ceil(size / 4)\<close> words were written and the result is
  \<open>FLASH_NO_ERR\<close>; or the load after word \<open>k\<close> returned something else, that pair is the
  last before the lock (no later word is attempted) and the result is \<open>FLASH_WRITE_ERR\<close>.
  On a medium that meets \<open>nor_medium\<close> the \<open>k\<close> words written before the mismatch (all
  words, when there is none) read back as programmed when the call returns. The witness
  has a stuck cell under the second of three words.
\<close>

theorem flash_write_verify:
  assumes "ceil_div (unat sz) 4 \<le> length buf" and "length buf < 1073741824"
  shows "\<exists>r h' log k.
           flash_write (traced hw) addr buf sz (h, []) = Some (r, (h', log)) \<and>
           k \<le> ceil_div (unat sz) 4 \<and>
           (r = FLASH_NO_ERR \<and> k = ceil_div (unat sz) 4 \<and>
              log = [Unlock, ClearFlag status_flags] @ verified_calls addr buf k @ [Lock] \<or>
            r = FLASH_WRITE_ERR \<and> k < ceil_div (unat sz) 4 \<and>
              (\<exists>v. v \<noteq> buf ! k \<and>
                 log = [Unlock, ClearFlag status_flags] @ verified_calls addr buf k @
                      [ProgramWord (addr + 4 * of_nat k) (buf ! k),
                       Load (addr + 4 * of_nat k) v, Lock])) \<and>
           (nor_medium ps hw view \<longrightarrow>
              (\<forall>j < k. le32 (view h') (addr + 4 * of_nat j) = buf ! j))"
proof -
  from flash_write_total [OF assms, of "traced hw" addr "(h, [])"] obtain r h' log where
    run: "flash_write (traced hw) addr buf sz (h, []) = Some (r, (h', log))"
    by (metis surj_pair)
  from flash_write_traced [OF run assms(2), of ps view] obtain k where
    "k \<le> ceil_div (unat sz) 4"
    "r = FLASH_NO_ERR \<and> k = ceil_div (unat sz) 4 \<and>
       log = [] @ [Unlock, ClearFlag status_flags] @ verified_calls addr buf k @ [Lock] \<or>
     r = FLASH_WRITE_ERR \<and> k < ceil_div (unat sz) 4 \<and> k < length buf \<and>
       (\<exists>v. v \<noteq> buf ! k \<and>
          log = [] @ [Unlock, ClearFlag status_flags] @ verified_calls addr buf k @
               [ProgramWord (addr + 4 * of_nat k) (buf ! k), Load (addr + 4 * of_nat k) v, Lock])"
    "nor_medium ps hw view \<longrightarrow>
       (\<forall>b. (\<forall>t < 4 * length buf. b \<noteq> addr + of_nat t) \<longrightarrow> view h' b = view h b) \<and>
       (\<forall>j < k. le32 (view h') (addr + 4 * of_nat j) = buf ! j)"
    by blast
  with run show ?thesis
    by (intro exI [of _ r] exI [of _ h'] exI [of _ log] exI [of _ k]) auto
qed

theorem flash_write_verify_witness:
  "map_option (\<lambda>(r, h, log). (r, log, map (le32 (nor_view h)) [0x08019000, 0x08019008]))
     (flash_write (traced (nor_hal 1024)) 0x08019000 [0x11111111, 0x22222222, 0x33333333] 12
        (\<lparr>cells = (\<lambda>a. 0xFF), defects = [0x08019004]\<rparr>, [])) =
   Some (FLASH_WRITE_ERR,
         [Unlock, ClearFlag status_flags,
          ProgramWord 0x08019000 0x11111111, Load 0x08019000 0x11111111,
          ProgramWord 0x08019004 0x22222222, Load 0x08019004 0x22222200, Lock],
         [0x11111111, 0xFFFFFFFF])"
proof -
  let ?buf = "[0x11111111, 0x22222222, 0x33333333] :: u32 list"
  let ?s = "\<lparr>cells = (\<lambda>a. 0xFF), defects = [0x08019004]\<rparr>"
  let ?W = "flash_write (traced (nor_hal 1024)) 0x08019000 ?buf 12 (?s, [])"
  have a: "ceil_div (unat (12 :: u32)) 4 \<le> length ?buf" by (simp add: ceil_div_def)
  have b: "length ?buf < 1073741824" by simp
  from flash_write_verify [OF a b, of "nor_hal 1024" "0x08019000" ?s 1024 nor_view]
  obtain r h' log k where run: "?W = Some (r, (h', log))"
    and k: "nor_medium 1024 (nor_hal 1024) nor_view \<longrightarrow>
              (\<forall>j < k. le32 (nor_view h') (0x08019000 + 4 * of_nat j) = ?buf ! j)"
    and tr: "r = FLASH_NO_ERR \<and> k = ceil_div (unat (12 :: u32)) 4 \<and>
              log = [Unlock, ClearFlag status_flags] @ verified_calls 0x08019000 ?buf k @ [Lock] \<or>
            r = FLASH_WRITE_ERR \<and> k < ceil_div (unat (12 :: u32)) 4 \<and>
              (\<exists>v. v \<noteq> ?buf ! k \<and>
                 log = [Unlock, ClearFlag status_flags] @ verified_calls 0x08019000 ?buf k @
                      [ProgramWord (0x08019000 + 4 * of_nat k) (?buf ! k),
                       Load (0x08019000 + 4 * of_nat k) v, Lock])"
    by blast
  have ev: "map_option (\<lambda>(r, h, log). (r, log, le32 (nor_view h) 0x08019008)) ?W =
       Some (FLASH_WRITE_ERR,
         [Unlock, ClearFlag status_flags,
          ProgramWord 0x08019000 0x11111111, Load 0x08019000 0x11111111,
          ProgramWord 0x08019004 0x22222222, Load 0x08019004 0x22222200, Lock],
         0xFFFFFFFF)"
    by (simp add: flash_write_def traced_def nor_hal_def nor_program_word_def
      nor_view_def le32_def byte_of_def Let_def)
  with run have r: "r = FLASH_WRITE_ERR" and lg: "length log = 7" by auto
  from tr r have "length log = 2 * k + 5"
    by (auto simp: verified_calls_def length_concat sum_list_triv comp_def)
  with lg have k1: "k = 1" by simp
  from k nor_hal_medium [of 1024] have "le32 (nor_view h') (0x08019000 + 4 * of_nat 0) = ?buf ! 0"
    unfolding k1 by blast
  then have "le32 (nor_view h') 0x08019000 = 0x11111111" by simp
  with run ev show ?thesis by auto
qed

text \<open>
  Claim C10, as amended. \<open>flash_write\<close> programs whole 32-bit words only. For every size
  that is not a multiple of 4, with \<open>ceil(size / 4) = size div 4 + 1\<close> words in the
  buffer, the call returns and has programmed and verified word after word: all
  \<open>ceil(size / 4)\<close> words when no verification fails, the last of them reaching one to
  three bytes beyond the requested size, and otherwise the words up to and including the
  first one whose verification fails. On a medium that meets \<open>nor_medium\<close> the verified
  words read back in full. The witness writes 6 bytes: two words are programmed.
\<close>

theorem flash_write_whole_words:
  assumes room: "ceil_div (unat sz) 4 \<le> length buf" and len: "length buf < 1073741824"
    and odd: "\<not> 4 dvd unat sz"
  shows "\<exists>r h' log k.
           flash_write (traced hw) addr buf sz (h, []) = Some (r, (h', log)) \<and>
           ceil_div (unat sz) 4 = unat sz div 4 + 1 \<and>
           unat sz < 4 * ceil_div (unat sz) 4 \<and>
           4 * ceil_div (unat sz) 4 \<le> unat sz + 3 \<and>
           (r = FLASH_NO_ERR \<and> k = ceil_div (unat sz) 4 \<and>
              log = [Unlock, ClearFlag status_flags] @ verified_calls addr buf k @ [Lock] \<or>
            r = FLASH_WRITE_ERR \<and> k < ceil_div (unat sz) 4 \<and>
              (\<exists>v. v \<noteq> buf ! k \<and>
                 log = [Unlock, ClearFlag status_flags] @ verified_calls addr buf k @
                      [ProgramWord (addr + 4 * of_nat k) (buf ! k),
                       Load (addr + 4 * of_nat k) v, Lock])) \<and>
           (nor_medium ps hw view \<longrightarrow>
              (\<forall>j < k. le32 (view h') (addr + 4 * of_nat j) = buf ! j))"
proof -
  from flash_write_total [OF room len, of "traced hw" addr "(h, [])"] obtain r h' log where
    run: "flash_write (traced hw) addr buf sz (h, []) = Some (r, (h', log))"
    by (metis surj_pair)
  from flash_write_traced [OF run len, of ps view] obtain k where k:
    "r = FLASH_NO_ERR \<and> k = ceil_div (unat sz) 4 \<and>
       log = [] @ [Unlock, ClearFlag status_flags] @ verified_calls addr buf k @ [Lock] \<or>
     r = FLASH_WRITE_ERR \<and> k < ceil_div (unat sz) 4 \<and> k < length buf \<and>
       (\<exists>v. v \<noteq> buf ! k \<and>
          log = [] @ [Unlock, ClearFlag status_flags] @ verified_calls addr buf k @
               [ProgramWord (addr + 4 * of_nat k) (buf ! k), Load (addr + 4 * of_nat k) v, Lock])"
    "nor_medium ps hw view \<longrightarrow>
       (\<forall>b. (\<forall>t < 4 * length buf. b \<noteq> addr + of_nat t) \<longrightarrow> view h' b = view h b) \<and>
       (\<forall>j < k. le32 (view h') (addr + 4 * of_nat j) = buf ! j)"
    by blast
  from ceil4_bounds [OF odd] have c: "ceil_div (unat sz) 4 = unat sz div 4 + 1"
    "unat sz < 4 * ceil_div (unat sz) 4" "4 * ceil_div (unat sz) 4 \<le> unat sz + 3"
    by simp_all
  from run c k show ?thesis
    by (intro exI [of _ r] exI [of _ h'] exI [of _ log] exI [of _ k]) auto
qed

theorem flash_write_whole_words_witness:
  "map_option (\<lambda>(r, h, log). (r, log, le32 (nor_view h) 0x08019004))
     (flash_write (traced (nor_hal 1024)) 0x08019000 [0x04030201, 0x08070605] 6 (blank, [])) =
   Some (FLASH_NO_ERR,
         [Unlock, ClearFlag status_flags,
          ProgramWord 0x08019000 0x04030201, Load 0x08019000 0x04030201,
          ProgramWord 0x08019004 0x08070605, Load 0x08019004 0x08070605, Lock],
         0x08070605)"
proof -
  let ?buf = "[0x04030201, 0x08070605] :: u32 list"
  let ?W = "flash_write (traced (nor_hal 1024)) 0x08019000 ?buf 6 (blank, [])"
  have c: "ceil_div (unat (6 :: u32)) 4 = 2" by (simp add: ceil_div_def)
  have room: "ceil_div (unat (6 :: u32)) 4 \<le> length ?buf" by (simp add: ceil_div_def)
  have len: "length ?buf < 1073741824" by simp
  have odd: "\<not> 4 dvd unat (6 :: u32)" by simp
  from flash_write_whole_words [OF room len odd, of "nor_hal 1024" "0x08019000" blank 1024 nor_view]
  obtain r h' log k where run: "?W = Some (r, (h', log))"
    and tr: "r = FLASH_NO_ERR \<and> k = ceil_div (unat (6 :: u32)) 4 \<and>
              log = [Unlock, ClearFlag status_flags] @ verified_calls 0x08019000 ?buf k @ [Lock] \<or>
            r = FLASH_WRITE_ERR \<and> k < ceil_div (unat (6 :: u32)) 4 \<and>
              (\<exists>v. v \<noteq> ?buf ! k \<and>
                 log = [Unlock, ClearFlag status_flags] @ verified_calls 0x08019000 ?buf k @
                      [ProgramWord (0x08019000 + 4 * of_nat k) (?buf ! k),
                       Load (0x08019000 + 4 * of_nat k) v, Lock])"
    and words: "nor_medium 1024 (nor_hal 1024) nor_view \<longrightarrow>
              (\<forall>j < k. le32 (nor_view h') (0x08019000 + 4 * of_nat j) = ?buf ! j)"
    by blast
  have ok: "map_option fst ?W = Some FLASH_NO_ERR"
    by (simp add: flash_write_def traced_def nor_hal_def nor_program_word_def
      nor_view_def le32_def byte_of_def Let_def blank_def)
  with run have r: "r = FLASH_NO_ERR" by simp
  with tr c have k2: "k = 2"
    and lg: "log = [Unlock, ClearFlag status_flags] @ verified_calls 0x08019000 ?buf 2 @ [Lock]"
    by auto
  from words nor_hal_medium [of 1024] k2
  have "\<forall>j < 2. le32 (nor_view h') (0x08019000 + 4 * of_nat j) = ?buf ! j" by blast
  from this [rule_format, of 1] have w1: "le32 (nor_view h') 0x08019004 = 0x08070605" by simp
  from lg have lg': "log = [Unlock, ClearFlag status_flags,
          ProgramWord 0x08019000 0x04030201, Load 0x08019000 0x04030201,
          ProgramWord 0x08019004 0x08070605, Load 0x08019004 0x08070605, Lock]"
    by (simp add: verified_calls_def upt_rec [of 0] upt_rec [of 1] numeral_2_eq_2)
  from run r w1 lg' show ?thesis by simp
qed

text \<open>
  The claim as stated has every write of such a size program \<open>ceil(size / 4)\<close> words.
  Here a cell under the first word is stuck: the write of 6 bytes programs one word, not
  two, and returns \<open>FLASH_WRITE_ERR\<close>.
\<close>

theorem flash_write_mismatch_counterexample:
  "map_option (\<lambda>(r, h, log). (r, log))
     (flash_write (traced (nor_hal 1024)) 0x08019000 [0x04030201, 0x08070605] 6
        (\<lparr>cells = (\<lambda>a. 0xFF), defects = [0x08019000]\<rparr>, [])) =
   Some (FLASH_WRITE_ERR,
         [Unlock, ClearFlag status_flags,
          ProgramWord 0x08019000 0x04030201, Load 0x08019000 0x04030200, Lock]) \<and>
   ceil_div (unat (6 :: u32)) 4 = 2"
  by (simp add: flash_write_def traced_def nor_hal_def nor_program_word_def
      nor_view_def le32_def byte_of_def Let_def ceil_div_def)

text \<open>
  Claim C1. On a medium that meets \<open>nor_medium\<close>: for every address and every sequence
  of words \<open>data\<close>, if \<open>flash_write\<close> of these \<open>4 * length data\<close> bytes returns
  \<open>FLASH_NO_ERR\<close>, then a following \<open>flash_read\<close> of \<open>length data\<close> words at the same
  address returns \<open>FLASH_NO_ERR\<close> and fills the buffer with exactly \<open>data\<close>. The address
  need not be aligned and the range need not have been erased: a write onto cells that
  cannot take the data does not return \<open>FLASH_NO_ERR\<close>. The witness writes
  \<open>[0xAAAAAAAA, 0x55555555]\<close> onto an erased medium.
\<close>

theorem flash_write_read_roundtrip:
  assumes nm: "nor_medium ps hw view"
    and len: "length data < 1073741824"
    and wr: "flash_write hw addr data (4 * of_nat (length data)) h = Some (FLASH_NO_ERR, h')"
    and room: "length data \<le> length buf"
  shows "\<exists>h''. flash_read hw addr buf (of_nat (length data)) h' =
                  Some (FLASH_NO_ERR, data @ drop (length data) buf, h'') \<and>
               (\<forall>b. view h'' b = view h' b)"
proof -
  let ?n = "length data"
  let ?sz = "4 * of_nat ?n :: u32"
  have un: "unat (of_nat ?n :: u32) = ?n" using len by (simp add: unat_of_nat)
  have "unat ?sz = (4 * unat (of_nat ?n :: u32)) mod 4294967296"
    by (simp add: unat_word_ariths)
  with un len have usz: "unat ?sz = 4 * ?n" by simp
  then have c: "ceil_div (unat ?sz) 4 = ?n" by (simp add: ceil_div_def)
  from wr flash_write_untraced [of hw addr data ?sz h "[]"] obtain log where
    run: "flash_write (traced hw) addr data ?sz (h, []) = Some (FLASH_NO_ERR, (h', log))"
    by auto
  from flash_write_traced [OF run len, of ps view] nm
  have words: "\<forall>j < ?n. le32 (view h') (addr + 4 * of_nat j) = data ! j"
    unfolding c by auto
  have "unat (of_nat ?n :: u32) \<le> length buf" using room un by simp
  from flash_read_traced [OF this, of hw addr h' "[]" ps view] nm obtain vs h'' where
    rd: "flash_read (traced hw) addr buf (of_nat ?n) (h', []) =
           Some (FLASH_NO_ERR, vs @ drop ?n buf, (h'', [] @ load_calls addr vs))"
    and lv: "length vs = ?n"
    and v: "view h'' = view h'"
    and vs: "\<forall>j < ?n. vs ! j = le32 (view h') (addr + 4 * of_nat j)"
    unfolding un by blast
  from lv vs words have "vs = data" by (intro nth_equalityI) simp_all
  with rd have "flash_read hw addr buf (of_nat ?n) h' =
      Some (FLASH_NO_ERR, data @ drop ?n buf, h'')"
    using flash_read_untraced [of hw addr buf "of_nat ?n" h' "[]"] by simp
  with v show ?thesis by simp
qed

theorem flash_write_read_roundtrip_witness:
  "map_option fst (flash_write (nor_hal 1024) 0x08019000 [0xAAAAAAAA, 0x55555555] 8 blank) =
     Some FLASH_NO_ERR \<and>
   map_option (\<lambda>(r, vs, h). (r, vs))
     (flash_read (nor_hal 1024) 0x08019000 [0, 0] 2
        (snd (the (flash_write (nor_hal 1024) 0x08019000 [0xAAAAAAAA, 0x55555555] 8 blank)))) =
     Some (FLASH_NO_ERR, [0xAAAAAAAA, 0x55555555])"
proof -
  let ?data = "[0xAAAAAAAA, 0x55555555] :: u32 list"
  let ?W = "flash_write (nor_hal 1024) 0x08019000 ?data 8 blank"
  have ok: "map_option fst ?W = Some FLASH_NO_ERR" by (simp add: wr_defs)
  then have W: "flash_write (nor_hal 1024) 0x08019000 ?data (4 * of_nat (length ?data)) blank =
      Some (FLASH_NO_ERR, snd (the ?W))"
    by (cases ?W) auto
  have len: "length ?data < 1073741824" by simp
  have room: "length ?data \<le> length ([0, 0] :: u32 list)" by simp
  from flash_write_read_roundtrip [OF nor_hal_medium [of 1024] len W room]
  obtain h'' where "flash_read (nor_hal 1024) 0x08019000 [0, 0] (of_nat (length ?data)) (snd (the ?W)) =
      Some (FLASH_NO_ERR, ?data @ drop (length ?data) [0, 0], h'')"
    by blast
  then have "map_option (\<lambda>(r, vs, h). (r, vs))
       (flash_read (nor_hal 1024) 0x08019000 [0, 0] 2 (snd (the ?W))) =
     Some (FLASH_NO_ERR, ?data)"
    by simp
  with ok show ?thesis by simp
qed

end
